theory Spec2Isabelle
  imports Main "HOL-Library.Multiset"
begin

section \<open>Data model\<close>

text \<open>
  The notebook works on a residue table, peptides and spectra. The residue table
  \<open>mass_table\<close> is a Python dict from one-letter symbols to masses; it is modelled as an
  association list in insertion order (the order in which \<open>mass_table.keys()\<close> enumerates
  it), and the dict invariant "keys are distinct" is the predicate \<open>is_dict\<close>. The stored
  mass strings are read through \<open>int(...)\<close> at every use; the model keeps the integer they
  denote. A peptide is a Python string, here a \<open>string\<close>; a spectrum is a list of integers.
  A score counts matches from 0 upwards and is a natural number; the retention count \<open>n\<close>
  is a Python integer, possibly negative, and is an \<open>int\<close>. The exceptions the code can
  raise are values of \<open>error\<close>, and a computation returns \<open>error + 'a\<close>.
\<close>

datatype error = IndexError | KeyError | ValueError

type_synonym mass_table = "(char \<times> int) list"
type_synonym peptide = string
type_synonym spectrum = "int list"

definition is_dict :: "mass_table \<Rightarrow> bool" where
  "is_dict mass_table = distinct (map fst mass_table)"

definition keys :: "mass_table \<Rightarrow> char list" where
  "keys mass_table = map fst mass_table"

text \<open>\<open>mass_table[symbol]\<close>: KeyError on a missing key.\<close>

definition getitem :: "mass_table \<Rightarrow> char \<Rightarrow> error + int" where
  "getitem mass_table symbol =
     (case map_of mass_table symbol of None \<Rightarrow> Inl KeyError | Some m \<Rightarrow> Inr m)"

text \<open>\<open>xs[i]\<close> for an index produced by \<open>range\<close> (never negative): IndexError out of range.\<close>

definition index :: "'a list \<Rightarrow> nat \<Rightarrow> error + 'a" where
  "index xs i = (if i < length xs then Inr (xs ! i) else Inl IndexError)"

text \<open>\<open>xs[i]\<close> for an arbitrary Python integer: a negative index counts from the end.\<close>

definition py_index :: "'a list \<Rightarrow> int \<Rightarrow> error + 'a" where
  "py_index xs i =
     (if 0 \<le> i \<and> i < int (length xs) then Inr (xs ! nat i)
      else if i < 0 \<and> - int (length xs) \<le> i then Inr (xs ! nat (int (length xs) + i))
      else Inl IndexError)"

text \<open>\<open>max(xs)\<close>: ValueError on the empty sequence.\<close>

definition py_max :: "int list \<Rightarrow> error + int" where
  "py_max xs = (if xs = [] then Inl ValueError else Inr (Max (set xs)))"

text \<open>\<open>xs.remove(x)\<close>: deletes the first occurrence, ValueError when there is none.\<close>

definition py_remove :: "'a list \<Rightarrow> 'a \<Rightarrow> error + 'a list" where
  "py_remove xs x = (if x \<in> set xs then Inr (remove1 x xs) else Inl ValueError)"

text \<open>
  A \<open>for x in xs: body\<close> loop whose body updates a state and may raise: the first error
  ends the loop and is the result.
\<close>

fun for_each :: "'a list \<Rightarrow> ('a \<Rightarrow> 's \<Rightarrow> error + 's) \<Rightarrow> 's \<Rightarrow> error + 's" where
  "for_each [] body s = Inr s"
| "for_each (x # xs) body s =
     (case body x s of Inl e \<Rightarrow> Inl e | Inr s' \<Rightarrow> for_each xs body s')"

section \<open>Fragment spectra\<close>

text \<open>
  The cumulative-mass loop shared by \<open>linear_spectrum\<close> and \<open>cyclic_spectrum\<close>:
  for every position \<open>i\<close> and every key of the table equal to \<open>peptide[i]\<close>, append
  \<open>prefix_mass[i] + int(mass_table[symbol])\<close>. A symbol that is not a key appends nothing.
\<close>

definition prefix_masses :: "peptide \<Rightarrow> mass_table \<Rightarrow> error + int list" where
  "prefix_masses peptide mass_table =
     for_each [0..<length peptide]
       (\<lambda>i. for_each (keys mass_table)
          (\<lambda>symbol prefix_mass.
             if symbol = peptide ! i then
               (case index prefix_mass i of
                  Inl e \<Rightarrow> Inl e
                | Inr p \<Rightarrow> (case getitem mass_table symbol of
                             Inl e \<Rightarrow> Inl e
                           | Inr m \<Rightarrow> Inr (prefix_mass @ [p + m])))
             else Inr prefix_mass))
       [0]"

text \<open>\<open>prefix_mass[j] - prefix_mass[i]\<close>, the left operand read first.\<close>

definition fragment :: "int list \<Rightarrow> nat \<Rightarrow> nat \<Rightarrow> error + int" where
  "fragment prefix_mass i j =
     (case index prefix_mass j of
        Inl e \<Rightarrow> Inl e
      | Inr a \<Rightarrow> (case index prefix_mass i of Inl e \<Rightarrow> Inl e | Inr b \<Rightarrow> Inr (a - b)))"

definition linear_spectrum :: "peptide \<Rightarrow> mass_table \<Rightarrow> error + spectrum" where
  "linear_spectrum peptide mass_table =
     (case prefix_masses peptide mass_table of
        Inl e \<Rightarrow> Inl e
      | Inr prefix_mass \<Rightarrow>
          (case for_each [0..<length peptide]
                  (\<lambda>i. for_each [i + 1..<length peptide + 1]
                     (\<lambda>j spec. case fragment prefix_mass i j of
                                  Inl e \<Rightarrow> Inl e
                                | Inr d \<Rightarrow> Inr (spec @ [d])))
                  [0] of
             Inl e \<Rightarrow> Inl e
           | Inr spec \<Rightarrow> Inr (sort spec)))"

text \<open>The total mass of a peptide: KeyError at the first symbol that is not in the table.\<close>

definition peptide_mass :: "peptide \<Rightarrow> mass_table \<Rightarrow> error + int" where
  "peptide_mass peptide mass_table =
     for_each peptide
       (\<lambda>ele mass. case getitem mass_table ele of Inl e \<Rightarrow> Inl e | Inr m \<Rightarrow> Inr (mass + m))
       0"

definition cyclic_spectrum :: "peptide \<Rightarrow> mass_table \<Rightarrow> error + spectrum" where
  "cyclic_spectrum peptide mass_table =
     (case prefix_masses peptide mass_table of
        Inl e \<Rightarrow> Inl e
      | Inr prefix_mass \<Rightarrow>
          (case peptide_mass peptide mass_table of
             Inl e \<Rightarrow> Inl e
           | Inr total_mass \<Rightarrow>
               (case for_each [0..<length peptide]
                       (\<lambda>i. for_each [i + 1..<length peptide + 1]
                          (\<lambda>j spec. case fragment prefix_mass i j of
                                       Inl e \<Rightarrow> Inl e
                                     | Inr d \<Rightarrow>
                                         if 0 < i \<and> j < length peptide
                                         then Inr (spec @ [d] @ [total_mass - d])
                                         else Inr (spec @ [d])))
                       [0] of
                  Inl e \<Rightarrow> Inl e
                | Inr spec \<Rightarrow> Inr (sort spec))))"

section \<open>Scoring\<close>

text \<open>
  The matching loop of \<open>cyclopeptide_scoring\<close>: every weight of the theoretical spectrum
  that is still in the copy of the target spectrum scores one and is removed from the copy.
\<close>

fun score_loop :: "spectrum \<Rightarrow> nat \<Rightarrow> spectrum \<Rightarrow> nat" where
  "score_loop [] score spectrum_copy = score"
| "score_loop (weight # ws) score spectrum_copy =
     (if weight \<in> set spectrum_copy
      then score_loop ws (score + 1) (remove1 weight spectrum_copy)
      else score_loop ws score spectrum_copy)"

definition cyclopeptide_scoring :: "peptide \<Rightarrow> spectrum \<Rightarrow> bool \<Rightarrow> mass_table \<Rightarrow> error + nat" where
  "cyclopeptide_scoring peptide spectrum cyclic mass_table =
     (case (if cyclic then cyclic_spectrum peptide mass_table
            else linear_spectrum peptide mass_table) of
        Inl e \<Rightarrow> Inl e
      | Inr spectrum_to_compare \<Rightarrow> Inr (score_loop spectrum_to_compare 0 spectrum))"

section \<open>Trimming the leaderboard\<close>

text \<open>
  \<open>dict.fromkeys(leader_board)\<close> keeps the first occurrence of every peptide, in order.
  The dict \<open>linear_scores\<close> is the list of its (key, score) entries in that order: the
  filling loop scores the keys one after the other and stops at the first error.
\<close>

fun fromkeys :: "'a list \<Rightarrow> 'a list" where
  "fromkeys [] = []"
| "fromkeys (x # xs) = x # fromkeys (removeAll x xs)"

definition trim :: "peptide list \<Rightarrow> spectrum \<Rightarrow> int \<Rightarrow> mass_table \<Rightarrow> error + peptide list" where
  "trim leader_board spectrum n mass_table =
     (if int (length leader_board) < n then Inr leader_board
      else
        (case for_each (fromkeys leader_board)
                (\<lambda>key linear_scores.
                   case cyclopeptide_scoring key spectrum False mass_table of
                     Inl e \<Rightarrow> Inl e
                   | Inr score \<Rightarrow> Inr (linear_scores @ [(key, score)]))
                [] of
           Inl e \<Rightarrow> Inl e
         | Inr linear_scores \<Rightarrow>
             (case py_index (rev (sort (map snd linear_scores))) (n - 1) of
                Inl e \<Rightarrow> Inl e
              | Inr minimum_score \<Rightarrow>
                  Inr (map fst (filter (\<lambda>(key, value). minimum_score \<le> value) linear_scores)))))"

section \<open>The sequencer\<close>

record seq_state =
  leader_board :: "peptide list"
  leader_peptide :: peptide
  leader_peptide_score :: nat

text \<open>\<open>[ele + aa for aa in amino_acids for ele in leader_board]\<close>\<close>

definition expand :: "char list \<Rightarrow> peptide list \<Rightarrow> peptide list" where
  "expand amino_acids board = concat (map (\<lambda>aa. map (\<lambda>ele. ele @ [aa]) board) amino_acids)"

text \<open>
  The body of \<open>for peptide in leader_board\<close>. Its state is the leader, the leader's score
  and the list \<open>peptides_to_remove\<close>.
\<close>

definition examine ::
  "spectrum \<Rightarrow> mass_table \<Rightarrow> peptide \<Rightarrow> peptide \<times> nat \<times> peptide list \<Rightarrow>
     error + peptide \<times> nat \<times> peptide list" where
  "examine spectrum mass_table peptide st =
     (case st of (leader, leader_score, peptides_to_remove) \<Rightarrow>
        (case peptide_mass peptide mass_table of
           Inl e \<Rightarrow> Inl e
         | Inr mass \<Rightarrow>
             (case py_max spectrum of
                Inl e \<Rightarrow> Inl e
              | Inr top_mass \<Rightarrow>
                  if mass = top_mass then
                    (case cyclopeptide_scoring peptide spectrum True mass_table of
                       Inl e \<Rightarrow> Inl e
                     | Inr score \<Rightarrow>
                         if leader_score < score then Inr (peptide, score, peptides_to_remove)
                         else Inr (leader, leader_score, peptides_to_remove))
                  else if top_mass < mass then Inr (leader, leader_score, peptides_to_remove @ [peptide])
                  else Inr (leader, leader_score, peptides_to_remove))))"

text \<open>
  The first half of the body of the \<open>while\<close> loop: the expansion, the pass over the
  expanded board, and the removal of the peptides collected in \<open>peptides_to_remove\<close>,
  one \<open>leader_board.remove\<close> after the other.
\<close>

definition mass_filter :: "spectrum \<Rightarrow> mass_table \<Rightarrow> seq_state \<Rightarrow> error + seq_state" where
  "mass_filter spectrum mass_table st =
     (let board = expand (keys mass_table) (leader_board st) in
      case for_each board (examine spectrum mass_table)
             (leader_peptide st, leader_peptide_score st, []) of
        Inl e \<Rightarrow> Inl e
      | Inr (leader, leader_score, peptides_to_remove) \<Rightarrow>
          (case for_each peptides_to_remove (\<lambda>p b. py_remove b p) board of
             Inl e \<Rightarrow> Inl e
           | Inr board' \<Rightarrow>
               Inr \<lparr>leader_board = board', leader_peptide = leader,
                    leader_peptide_score = leader_score\<rparr>))"

text \<open>
  One pass through the whole body: after the mass filter the board is trimmed when it is
  not empty. The flag of the result is False when the body leaves the loop through
  \<open>break\<close>.
\<close>

definition round_body :: "spectrum \<Rightarrow> int \<Rightarrow> mass_table \<Rightarrow> seq_state \<Rightarrow> error + seq_state \<times> bool" where
  "round_body spectrum n mass_table st =
     (case mass_filter spectrum mass_table st of
        Inl e \<Rightarrow> Inl e
      | Inr st' \<Rightarrow>
          if 0 < length (leader_board st') then
            (case trim (leader_board st') spectrum n mass_table of
               Inl e \<Rightarrow> Inl e
             | Inr board \<Rightarrow> Inr (st'\<lparr>leader_board := board\<rparr>, True))
          else Inr (st', False))"

text \<open>
  The \<open>while leader_board:\<close> loop. It need not terminate, so the result is an option:
  None stands for a run that never returns.
\<close>

partial_function (option) sequencing_loop ::
  "spectrum \<Rightarrow> int \<Rightarrow> mass_table \<Rightarrow> seq_state \<Rightarrow> (error + seq_state) option" where
  "sequencing_loop spectrum n mass_table st =
     (if leader_board st = [] then Some (Inr st)
      else
        (case round_body spectrum n mass_table st of
           Inl e \<Rightarrow> Some (Inl e)
         | Inr (st', continue) \<Rightarrow>
             if continue then sequencing_loop spectrum n mass_table st' else Some (Inr st')))"

declare sequencing_loop.simps [code]

definition initial_state :: seq_state where
  "initial_state = \<lparr>leader_board = [''''], leader_peptide = '''', leader_peptide_score = 0\<rparr>"

definition leaderboard_peptide_sequencing ::
  "spectrum \<Rightarrow> int \<Rightarrow> mass_table \<Rightarrow> (error + peptide) option" where
  "leaderboard_peptide_sequencing spectrum n mass_table =
     (case sequencing_loop spectrum n mass_table initial_state of
        None \<Rightarrow> None
      | Some (Inl e) \<Rightarrow> Some (Inl e)
      | Some (Inr st) \<Rightarrow> Some (Inr (leader_peptide st)))"

section \<open>Auxiliary notions for the statements\<close>

text \<open>
  A table covers a peptide when every symbol of the peptide is a key. The residue masses are
  positive when every stored mass is. \<open>mass_sum\<close> is the total mass of a covered peptide and
  \<open>prefix_sum\<close> the mass of its first \<open>k\<close> residues; the two fragment lists are the masses
  the nested loops of \<open>linear_spectrum\<close> and \<open>cyclic_spectrum\<close> append, in loop order.
\<close>

definition covers :: "mass_table \<Rightarrow> peptide \<Rightarrow> bool" where
  "covers mass_table peptide = (set peptide \<subseteq> set (keys mass_table))"

definition positive_masses :: "mass_table \<Rightarrow> bool" where
  "positive_masses mass_table = (\<forall>m \<in> set (map snd mass_table). 0 < m)"

definition residue_mass :: "mass_table \<Rightarrow> char \<Rightarrow> int" where
  "residue_mass mass_table c = (case map_of mass_table c of None \<Rightarrow> 0 | Some m \<Rightarrow> m)"

definition mass_sum :: "mass_table \<Rightarrow> peptide \<Rightarrow> int" where
  "mass_sum mass_table peptide = sum_list (map (residue_mass mass_table) peptide)"

definition prefix_sum :: "mass_table \<Rightarrow> peptide \<Rightarrow> nat \<Rightarrow> int" where
  "prefix_sum mass_table peptide k = mass_sum mass_table (take k peptide)"

definition linear_fragments :: "mass_table \<Rightarrow> peptide \<Rightarrow> int list" where
  "linear_fragments mass_table peptide =
     concat (map (\<lambda>i. map (\<lambda>j. prefix_sum mass_table peptide j - prefix_sum mass_table peptide i)
                         [Suc i..<Suc (length peptide)])
                 [0..<length peptide])"

definition cyclic_fragments :: "mass_table \<Rightarrow> peptide \<Rightarrow> int list" where
  "cyclic_fragments mass_table peptide =
     concat (map (\<lambda>i. concat (map (\<lambda>j.
                 if 0 < i \<and> j < length peptide
                 then [prefix_sum mass_table peptide j - prefix_sum mass_table peptide i,
                       mass_sum mass_table peptide -
                         (prefix_sum mass_table peptide j - prefix_sum mass_table peptide i)]
                 else [prefix_sum mass_table peptide j - prefix_sum mass_table peptide i])
                         [Suc i..<Suc (length peptide)]))
                 [0..<length peptide])"

text \<open>
  The linear score of a candidate, as \<open>trim\<close> computes it, the cyclic score, as the
  sequencer computes it for a candidate of full mass, and the \<open>n\<close>-th highest of a list
  of scores (the entry of index \<open>n - 1\<close> in descending order). The maximum of a non-empty
  spectrum is \<open>spectrum_max\<close>; a candidate is over the bound when its mass is greater.
  A table covers a leaderboard when it covers each of its peptides.
\<close>

definition linear_score :: "spectrum \<Rightarrow> mass_table \<Rightarrow> peptide \<Rightarrow> nat" where
  "linear_score spectrum mass_table peptide =
     (case cyclopeptide_scoring peptide spectrum False mass_table of Inl e \<Rightarrow> 0 | Inr score \<Rightarrow> score)"

definition nth_highest :: "nat list \<Rightarrow> int \<Rightarrow> nat" where
  "nth_highest scores n = rev (sort scores) ! nat (n - 1)"

definition spectrum_max :: "spectrum \<Rightarrow> int" where
  "spectrum_max spectrum = Max (set spectrum)"

definition over_bound :: "spectrum \<Rightarrow> mass_table \<Rightarrow> peptide \<Rightarrow> bool" where
  "over_bound spectrum mass_table peptide = (spectrum_max spectrum < mass_sum mass_table peptide)"

definition cyclic_score :: "spectrum \<Rightarrow> mass_table \<Rightarrow> peptide \<Rightarrow> nat" where
  "cyclic_score spectrum mass_table peptide =
     (case cyclopeptide_scoring peptide spectrum True mass_table of Inl e \<Rightarrow> 0 | Inr score \<Rightarrow> score)"

definition covers_all :: "mass_table \<Rightarrow> peptide list \<Rightarrow> bool" where
  "covers_all mass_table board = (\<forall>p \<in> set board. covers mass_table p)"

text \<open>
  What every round of the sequencer preserves: the peptides of the leaderboard are pairwise
  distinct, built from keys of the table, and all of length \<open>k\<close>.
\<close>

definition round_inv :: "mass_table \<Rightarrow> nat \<Rightarrow> seq_state \<Rightarrow> bool" where
  "round_inv mass_table k st =
     (distinct (leader_board st) \<and> covers_all mass_table (leader_board st) \<and>
      (\<forall>p \<in> set (leader_board st). length p = k))"

section \<open>Loops that cannot fail\<close>

lemma for_each_append:
  "for_each (xs @ ys) body s =
     (case for_each xs body s of Inl e \<Rightarrow> Inl e | Inr s' \<Rightarrow> for_each ys body s')"
  by (induction xs arbitrary: s) (auto split: sum.splits)

lemma for_each_collect:
  assumes "\<And>x acc. x \<in> set xs \<Longrightarrow> body x acc = Inr (acc @ f x)"
  shows "for_each xs body acc = Inr (acc @ concat (map f xs))"
  using assms by (induction xs arbitrary: acc) auto

lemma getitem_covered:
  "c \<in> set (keys mass_table) \<Longrightarrow> getitem mass_table c = Inr (residue_mass mass_table c)"
  by (auto simp: getitem_def residue_mass_def keys_def map_of_eq_None_iff split: option.splits)

lemma key_loop:
  assumes "distinct ks" and "i < length pm" and "getitem mass_table c = Inr m"
  shows "for_each ks
           (\<lambda>symbol prefix_mass.
              if symbol = c then
                (case index prefix_mass i of
                   Inl e \<Rightarrow> Inl e
                 | Inr p \<Rightarrow> (case getitem mass_table symbol of
                              Inl e \<Rightarrow> Inl e
                            | Inr m \<Rightarrow> Inr (prefix_mass @ [p + m])))
              else Inr prefix_mass) pm =
         Inr (if c \<in> set ks then pm @ [pm ! i + m] else pm)"
  using assms
proof (induction ks arbitrary: pm)
  case Nil
  then show ?case by simp
next
  case (Cons k ks)
  show ?case
  proof (cases "k = c")
    case True
    with Cons.prems have notin: "c \<notin> set ks" by simp
    have len: "i < length (pm @ [pm ! i + m])" using Cons.prems by simp
    from Cons.prems have d: "distinct ks" by simp
    show ?thesis
      using True Cons.prems notin Cons.IH [OF d len Cons.prems(3)]
      by (simp add: index_def)
  next
    case False
    then show ?thesis using Cons by simp
  qed
qed

lemma prefix_sum_Suc:
  "k < length peptide \<Longrightarrow>
     prefix_sum mass_table peptide (Suc k) =
       prefix_sum mass_table peptide k + residue_mass mass_table (peptide ! k)"
  by (simp add: prefix_sum_def mass_sum_def take_Suc_conv_app_nth)

lemma prefix_loop:
  assumes "is_dict mass_table" and "covers mass_table peptide" and "k \<le> length peptide"
  shows "for_each [0..<k]
       (\<lambda>i. for_each (keys mass_table)
          (\<lambda>symbol prefix_mass.
             if symbol = peptide ! i then
               (case index prefix_mass i of
                  Inl e \<Rightarrow> Inl e
                | Inr p \<Rightarrow> (case getitem mass_table symbol of
                             Inl e \<Rightarrow> Inl e
                           | Inr m \<Rightarrow> Inr (prefix_mass @ [p + m])))
             else Inr prefix_mass))
       [0] = Inr (map (prefix_sum mass_table peptide) [0..<Suc k])"
  using assms(3)
proof (induction k)
  case 0
  then show ?case by (simp add: prefix_sum_def mass_sum_def)
next
  case (Suc k)
  let ?pm = "map (prefix_sum mass_table peptide) [0..<Suc k]"
  have k: "k < length peptide" using Suc.prems by simp
  then have mem: "peptide ! k \<in> set (keys mass_table)"
    using assms(2) by (auto simp: covers_def)
  have d: "distinct (keys mass_table)" using assms(1) by (simp add: is_dict_def keys_def)
  have len: "k < length ?pm" by simp
  have nth: "?pm ! k = prefix_sum mass_table peptide k"
    using nth_map_upt [of k "Suc k" 0 "prefix_sum mass_table peptide"] by simp
  have step: "for_each (keys mass_table)
          (\<lambda>symbol prefix_mass.
             if symbol = peptide ! k then
               (case index prefix_mass k of
                  Inl e \<Rightarrow> Inl e
                | Inr p \<Rightarrow> (case getitem mass_table symbol of
                             Inl e \<Rightarrow> Inl e
                           | Inr m \<Rightarrow> Inr (prefix_mass @ [p + m])))
             else Inr prefix_mass) ?pm
       = Inr (?pm @ [prefix_sum mass_table peptide (Suc k)])"
    using key_loop [OF d len getitem_covered [OF mem]] mem nth prefix_sum_Suc [OF k]
    by simp
  have IH: "for_each [0..<k]
       (\<lambda>i. for_each (keys mass_table)
          (\<lambda>symbol prefix_mass.
             if symbol = peptide ! i then
               (case index prefix_mass i of
                  Inl e \<Rightarrow> Inl e
                | Inr p \<Rightarrow> (case getitem mass_table symbol of
                             Inl e \<Rightarrow> Inl e
                           | Inr m \<Rightarrow> Inr (prefix_mass @ [p + m])))
             else Inr prefix_mass))
       [0] = Inr ?pm" using Suc by simp
  have split: "[0..<Suc k] = [0..<k] @ [k]" by simp
  show ?case
    unfolding split for_each_append IH
    using step by simp
qed

lemma prefix_masses_covered:
  assumes "is_dict mass_table" and "covers mass_table peptide"
  shows "prefix_masses peptide mass_table =
           Inr (map (prefix_sum mass_table peptide) [0..<Suc (length peptide)])"
  unfolding prefix_masses_def using prefix_loop [OF assms, of "length peptide"] by simp

lemma peptide_mass_loop:
  "set peptide \<subseteq> set (keys mass_table) \<Longrightarrow>
     for_each peptide
       (\<lambda>ele mass. case getitem mass_table ele of Inl e \<Rightarrow> Inl e | Inr m \<Rightarrow> Inr (mass + m)) a
     = Inr (a + mass_sum mass_table peptide)"
  by (induction peptide arbitrary: a) (auto simp: getitem_covered mass_sum_def)

lemma peptide_mass_covered:
  "covers mass_table peptide \<Longrightarrow> peptide_mass peptide mass_table = Inr (mass_sum mass_table peptide)"
  unfolding peptide_mass_def covers_def using peptide_mass_loop [of peptide mass_table 0] by simp

lemma fragment_prefix:
  assumes "i \<le> n" and "j \<le> n"
  shows "fragment (map P [0..<Suc n]) i j = Inr (P j - P i)"
proof -
  have "map P [0..<Suc n] ! i = P i" "map P [0..<Suc n] ! j = P j"
    using assms nth_map_upt [of i "Suc n" 0 P] nth_map_upt [of j "Suc n" 0 P] by simp_all
  then show ?thesis using assms by (simp add: fragment_def index_def)
qed

lemma linear_spectrum_covered:
  assumes "is_dict mass_table" and "covers mass_table peptide"
  shows "linear_spectrum peptide mass_table = Inr (sort (0 # linear_fragments mass_table peptide))"
proof -
  let ?n = "length peptide"
  let ?P = "prefix_sum mass_table peptide"
  let ?pm = "map ?P [0..<Suc ?n]"
  have inner: "for_each [i + 1..<?n + 1]
                 (\<lambda>j spec. case fragment ?pm i j of Inl e \<Rightarrow> Inl e | Inr d \<Rightarrow> Inr (spec @ [d])) acc
               = Inr (acc @ map (\<lambda>j. ?P j - ?P i) [Suc i..<Suc ?n])"
    if "i \<in> set [0..<?n]" for i acc
  proof -
    have "for_each [i + 1..<?n + 1]
                 (\<lambda>j spec. case fragment ?pm i j of Inl e \<Rightarrow> Inl e | Inr d \<Rightarrow> Inr (spec @ [d])) acc
          = Inr (acc @ concat (map (\<lambda>j. [?P j - ?P i]) [i + 1..<?n + 1]))"
      using that by (intro for_each_collect) (simp del: upt_Suc add: fragment_prefix)
    then show ?thesis by (simp add: concat_map_singleton)
  qed
  have outer: "for_each [0..<?n]
                  (\<lambda>i. for_each [i + 1..<?n + 1]
                     (\<lambda>j spec. case fragment ?pm i j of
                                  Inl e \<Rightarrow> Inl e
                                | Inr d \<Rightarrow> Inr (spec @ [d])))
                  [0] = Inr ([0] @ linear_fragments mass_table peptide)"
    unfolding linear_fragments_def by (intro for_each_collect) (rule inner)
  show ?thesis
    unfolding linear_spectrum_def prefix_masses_covered [OF assms] using outer by simp
qed

lemma cyclic_spectrum_covered:
  assumes "is_dict mass_table" and "covers mass_table peptide"
  shows "cyclic_spectrum peptide mass_table = Inr (sort (0 # cyclic_fragments mass_table peptide))"
proof -
  let ?n = "length peptide"
  let ?P = "prefix_sum mass_table peptide"
  let ?M = "mass_sum mass_table peptide"
  let ?pm = "map ?P [0..<Suc ?n]"
  let ?f = "\<lambda>i j. if 0 < i \<and> j < ?n then [?P j - ?P i, ?M - (?P j - ?P i)] else [?P j - ?P i]"
  have inner: "for_each [i + 1..<?n + 1]
                 (\<lambda>j spec. case fragment ?pm i j of
                               Inl e \<Rightarrow> Inl e
                             | Inr d \<Rightarrow>
                                 if 0 < i \<and> j < ?n
                                 then Inr (spec @ [d] @ [?M - d])
                                 else Inr (spec @ [d])) acc
               = Inr (acc @ concat (map (?f i) [Suc i..<Suc ?n]))"
    if "i \<in> set [0..<?n]" for i acc
  proof -
    have "for_each [i + 1..<?n + 1]
                 (\<lambda>j spec. case fragment ?pm i j of
                               Inl e \<Rightarrow> Inl e
                             | Inr d \<Rightarrow>
                                 if 0 < i \<and> j < ?n
                                 then Inr (spec @ [d] @ [?M - d])
                                 else Inr (spec @ [d])) acc
          = Inr (acc @ concat (map (?f i) [i + 1..<?n + 1]))"
      using that by (intro for_each_collect) (simp del: upt_Suc add: fragment_prefix)
    then show ?thesis by simp
  qed
  have outer: "for_each [0..<?n]
                  (\<lambda>i. for_each [i + 1..<?n + 1]
                     (\<lambda>j spec. case fragment ?pm i j of
                               Inl e \<Rightarrow> Inl e
                             | Inr d \<Rightarrow>
                                 if 0 < i \<and> j < ?n
                                 then Inr (spec @ [d] @ [?M - d])
                                 else Inr (spec @ [d])))
                  [0] = Inr ([0] @ cyclic_fragments mass_table peptide)"
    unfolding cyclic_fragments_def by (intro for_each_collect) (rule inner)
  show ?thesis
    unfolding cyclic_spectrum_def prefix_masses_covered [OF assms]
      peptide_mass_covered [OF assms(2)]
    using outer by simp
qed

section \<open>Sizes and bounds of the fragment lists\<close>

lemma residue_mass_pos:
  assumes "positive_masses mass_table" and "c \<in> set (keys mass_table)"
  shows "0 < residue_mass mass_table c"
proof -
  from assms(2) have "map_of mass_table c \<noteq> None"
    by (simp add: keys_def map_of_eq_None_iff)
  then obtain m where m: "map_of mass_table c = Some m" by auto
  then have "(c, m) \<in> set mass_table" by (rule map_of_SomeD)
  then have "m \<in> set (map snd mass_table)" by force
  with assms(1) have "0 < m" by (auto simp: positive_masses_def)
  with m show ?thesis by (simp add: residue_mass_def)
qed

lemma prefix_sum_0: "prefix_sum mass_table peptide 0 = 0"
  by (simp add: prefix_sum_def mass_sum_def)

lemma prefix_sum_length: "prefix_sum mass_table peptide (length peptide) = mass_sum mass_table peptide"
  by (simp add: prefix_sum_def)

lemma prefix_sum_strict:
  assumes "positive_masses mass_table" and "covers mass_table peptide"
  shows "i < j \<Longrightarrow> j \<le> length peptide \<Longrightarrow>
           prefix_sum mass_table peptide i < prefix_sum mass_table peptide j"
proof (induction j)
  case 0
  then show ?case by simp
next
  case (Suc j)
  then have j: "j < length peptide" by simp
  then have "peptide ! j \<in> set (keys mass_table)" using assms(2) by (auto simp: covers_def)
  then have pos: "0 < residue_mass mass_table (peptide ! j)" by (rule residue_mass_pos [OF assms(1)])
  show ?case
  proof (cases "i = j")
    case True
    then show ?thesis using pos prefix_sum_Suc [OF j, of mass_table] by simp
  next
    case False
    then have "prefix_sum mass_table peptide i < prefix_sum mass_table peptide j"
      using Suc by simp
    then show ?thesis using pos prefix_sum_Suc [OF j, of mass_table] by simp
  qed
qed

lemma triangle_sum: "m \<le> n \<Longrightarrow> 2 * sum_list (map (\<lambda>i. n - i) [m..<n]) = (n - m) * (n - m + 1)"
proof (induction "n - m" arbitrary: m)
  case 0
  then show ?case by simp
next
  case (Suc d)
  then have lt: "m < n" and d: "d = n - Suc m" and le: "Suc m \<le> n" by simp_all
  have nm: "n - m = Suc d" using Suc by simp
  have "2 * sum_list (map (\<lambda>i. n - i) [Suc m..<n]) = (n - Suc m) * (n - Suc m + 1)"
    using Suc.hyps(1) [OF d le] .
  then have "2 * sum_list (map (\<lambda>i. n - i) [Suc m..<n]) = d * (d + 1)" using d by simp
  then show ?case using lt nm by (simp add: upt_conv_Cons)
qed

lemma length_linear_fragments:
  "2 * length (linear_fragments mass_table peptide) = length peptide * (length peptide + 1)"
proof -
  have "length (linear_fragments mass_table peptide) =
          sum_list (map (\<lambda>i. length peptide - i) [0..<length peptide])"
    by (simp add: linear_fragments_def length_concat comp_def del: upt_Suc)
  then show ?thesis using triangle_sum [of 0 "length peptide"] by simp
qed

lemma odd_sum: "m \<le> n \<Longrightarrow> sum_list (map (\<lambda>i. 2 * (n - i) - 1) [m..<n]) = (n - m) * (n - m)"
proof (induction "n - m" arbitrary: m)
  case 0
  then show ?case by simp
next
  case (Suc d)
  then have lt: "m < n" and d: "d = n - Suc m" and le: "Suc m \<le> n" by simp_all
  have nm: "n - m = Suc d" using Suc by simp
  have "sum_list (map (\<lambda>i. 2 * (n - i) - 1) [Suc m..<n]) = (n - Suc m) * (n - Suc m)"
    using Suc.hyps(1) [OF d le] .
  then have "sum_list (map (\<lambda>i. 2 * (n - i) - 1) [Suc m..<n]) = d * d" using d by simp
  then show ?case using lt nm by (simp add: upt_conv_Cons)
qed

lemma cyclic_row_length:
  assumes "0 < i" and "i < n"
  shows "length (concat (map (\<lambda>j. if 0 < i \<and> j < n then [f j, g j] else [f j]) [Suc i..<Suc n]))
           = 2 * (n - i) - 1"
proof -
  have "map (\<lambda>j. if 0 < i \<and> j < n then [f j, g j] else [f j]) [Suc i..<n]
          = map (\<lambda>j. [f j, g j]) [Suc i..<n]"
    using assms(1) by simp
  then have "length (concat (map (\<lambda>j. if 0 < i \<and> j < n then [f j, g j] else [f j]) [Suc i..<n]))
          = length (concat (map (\<lambda>j. [f j, g j]) [Suc i..<n]))"
    by (simp only:)
  also have "\<dots> = 2 * (n - Suc i)"
    by (simp add: length_concat comp_def sum_list_triv)
  finally have "length (concat (map (\<lambda>j. if 0 < i \<and> j < n then [f j, g j] else [f j]) [Suc i..<n])) = 2 * (n - Suc i)" .
  then show ?thesis using assms by simp
qed

lemma length_cyclic_fragments:
  assumes "1 \<le> length peptide"
  shows "length (cyclic_fragments mass_table peptide) = length peptide * (length peptide - 1) + 1"
proof -
  let ?n = "length peptide"
  let ?P = "prefix_sum mass_table peptide"
  let ?M = "mass_sum mass_table peptide"
  let ?row = "\<lambda>i. concat (map (\<lambda>j.
                 if 0 < i \<and> j < ?n then [?P j - ?P i, ?M - (?P j - ?P i)] else [?P j - ?P i])
                         [Suc i..<Suc ?n])"
  have upt: "[0..<?n] = 0 # [1..<?n]" using assms upt_conv_Cons [of 0 ?n] by (cases peptide) auto
  have row0: "length (?row 0) = ?n" by (simp add: length_concat comp_def sum_list_triv del: upt_Suc)
  have "length (?row i) = 2 * (?n - i) - 1" if "i \<in> set [1..<?n]" for i
  proof -
    from that have "0 < i" "i < ?n" by simp_all
    then show ?thesis by (rule cyclic_row_length)
  qed
  then have rows: "map (\<lambda>i. length (?row i)) [1..<?n] = map (\<lambda>i. 2 * (?n - i) - 1) [1..<?n]"
    by (intro map_cong [OF refl])
  have "cyclic_fragments mass_table peptide = ?row 0 @ concat (map ?row [1..<?n])"
    unfolding cyclic_fragments_def by (subst upt) simp
  then have "length (cyclic_fragments mass_table peptide) =
          length (?row 0) + sum_list (map (\<lambda>i. length (?row i)) [1..<?n])"
    by (simp only: length_append length_concat map_map comp_def)
  also have "\<dots> = ?n + (?n - 1) * (?n - 1)"
    unfolding rows row0 using odd_sum [of 1 ?n] assms by simp
  also have "\<dots> = ?n * (?n - 1) + 1"
  proof (cases ?n)
    case 0
    then show ?thesis using assms by simp
  next
    case (Suc k)
    then show ?thesis by simp
  qed
  finally show ?thesis .
qed

lemma prefix_sum_mono:
  assumes "positive_masses mass_table" and "covers mass_table peptide"
    and "i \<le> j" and "j \<le> length peptide"
  shows "prefix_sum mass_table peptide i \<le> prefix_sum mass_table peptide j"
proof (cases "i = j")
  case True
  then show ?thesis by simp
next
  case False
  then have "i < j" using assms(3) by simp
  then show ?thesis using prefix_sum_strict [OF assms(1,2) _ assms(4)] by fastforce
qed

lemma linear_fragments_bounds:
  assumes "positive_masses mass_table" and "covers mass_table peptide"
    and "x \<in> set (linear_fragments mass_table peptide)"
  shows "0 < x \<and> x \<le> mass_sum mass_table peptide"
proof -
  let ?P = "prefix_sum mass_table peptide"
  from assms(3) obtain i j where ij: "i < j" "j \<le> length peptide" and x: "x = ?P j - ?P i"
    by (auto simp: linear_fragments_def Suc_le_eq less_Suc_eq_le simp del: upt_Suc)
  have "?P i < ?P j" using prefix_sum_strict [OF assms(1,2) ij] .
  moreover have "?P j \<le> ?P (length peptide)"
    using prefix_sum_mono [OF assms(1,2) ij(2)] by simp
  moreover have "0 \<le> ?P i"
    using prefix_sum_mono [OF assms(1,2), of 0 i] ij by (simp add: prefix_sum_0)
  ultimately show ?thesis using x by (simp add: prefix_sum_length)
qed

lemma linear_fragments_total:
  assumes "1 \<le> length peptide"
  shows "mass_sum mass_table peptide \<in> set (linear_fragments mass_table peptide)"
proof -
  let ?P = "prefix_sum mass_table peptide"
  let ?n = "length peptide"
  have upt: "[0..<?n] = 0 # [1..<?n]" using assms upt_conv_Cons [of 0 ?n] by (cases peptide) auto
  have "?n \<in> set [Suc 0..<Suc ?n]" using assms by simp
  then have "?P ?n - ?P 0 \<in> set (map (\<lambda>j. ?P j - ?P 0) [Suc 0..<Suc ?n])"
    by (simp only: set_map) (rule imageI)
  then have "?P ?n - ?P 0 \<in> set (linear_fragments mass_table peptide)"
    unfolding linear_fragments_def by (subst upt) (simp del: upt_Suc)
  then show ?thesis by (simp add: prefix_sum_0 prefix_sum_length)
qed

lemma sorted_hd_least:
  fixes xs :: "int list"
  assumes "sorted xs" and "x \<in> set xs" and "\<And>y. y \<in> set xs \<Longrightarrow> x \<le> y"
  shows "hd xs = x"
proof (cases xs)
  case Nil
  then show ?thesis using assms(2) by simp
next
  case (Cons a as)
  then have "a \<le> x" using assms(1,2) by auto
  moreover have "x \<le> a" using assms(3) Cons by simp
  ultimately show ?thesis using Cons by simp
qed

lemma sorted_last_greatest:
  fixes xs :: "int list"
  assumes "sorted xs" and "x \<in> set xs" and "\<And>y. y \<in> set xs \<Longrightarrow> y \<le> x"
  shows "last xs = x"
proof -
  have ne: "xs \<noteq> []" using assms(2) by auto
  then have "last xs \<in> set xs" by simp
  then have "last xs \<le> x" by (rule assms(3))
  moreover have "x \<le> last xs"
    using assms(1,2) by (induction xs) auto
  ultimately show ?thesis by simp
qed

lemma cyclic_fragments_pos:
  assumes "positive_masses mass_table" and "covers mass_table peptide"
    and "x \<in> set (cyclic_fragments mass_table peptide)"
  shows "0 < x"
proof -
  let ?P = "prefix_sum mass_table peptide"
  let ?M = "mass_sum mass_table peptide"
  from assms(3) obtain i j where ij: "i < j" "j \<le> length peptide"
    and x: "x = ?P j - ?P i \<or> (0 < i \<and> x = ?M - (?P j - ?P i))"
    by (auto simp: cyclic_fragments_def Suc_le_eq less_Suc_eq_le simp del: upt_Suc split: if_splits)
  have lt: "?P i < ?P j" using prefix_sum_strict [OF assms(1,2) ij] .
  have le: "?P j \<le> ?M"
    using prefix_sum_mono [OF assms(1,2) ij(2)] by (simp add: prefix_sum_length)
  have "0 < ?P i" if "0 < i"
    using prefix_sum_strict [OF assms(1,2) that] ij by (simp add: prefix_sum_0)
  then show ?thesis using x lt le by auto
qed

lemma cyclic_fragments_count_total:
  assumes "positive_masses mass_table" and "covers mass_table peptide"
    and "1 \<le> length peptide"
  shows "count_list (cyclic_fragments mass_table peptide) (mass_sum mass_table peptide) = 1"
proof -
  let ?n = "length peptide"
  let ?P = "prefix_sum mass_table peptide"
  let ?M = "mass_sum mass_table peptide"
  let ?row = "\<lambda>i. concat (map (\<lambda>j.
                 if 0 < i \<and> j < ?n then [?P j - ?P i, ?M - (?P j - ?P i)] else [?P j - ?P i])
                         [Suc i..<Suc ?n])"
  have upt: "[0..<?n] = 0 # [1..<?n]" using assms(3) upt_conv_Cons [of 0 ?n] by (cases peptide) auto
  have split: "cyclic_fragments mass_table peptide = ?row 0 @ concat (map ?row [1..<?n])"
    unfolding cyclic_fragments_def by (subst upt) simp
  have row0: "?row 0 = map ?P [1..<?n] @ [?M]"
    using assms(3) by (simp add: prefix_sum_0 prefix_sum_length concat_map_singleton)
  have a: "?M \<notin> set (map ?P [1..<?n])"
  proof
    assume "?M \<in> set (map ?P [1..<?n])"
    then obtain j where "j < ?n" "?M = ?P j" by auto
    then show False using prefix_sum_strict [OF assms(1,2), of j ?n] by (simp add: prefix_sum_length)
  qed
  have b: "?M \<notin> set (concat (map ?row [1..<?n]))"
  proof
    assume "?M \<in> set (concat (map ?row [1..<?n]))"
    then obtain i j where ij: "0 < i" "i < j" "j \<le> ?n"
      and x: "?M = ?P j - ?P i \<or> ?M = ?M - (?P j - ?P i)"
      by (auto simp: Suc_le_eq less_Suc_eq_le simp del: upt_Suc split: if_splits)
    have lt: "?P i < ?P j" using prefix_sum_strict [OF assms(1,2) ij(2,3)] .
    have le: "?P j \<le> ?M"
      using prefix_sum_mono [OF assms(1,2) ij(3)] by (simp add: prefix_sum_length)
    have "0 < ?P i"
      using prefix_sum_strict [OF assms(1,2) ij(1)] ij by (simp add: prefix_sum_0)
    then show False using x lt le by auto
  qed
  have c1: "count_list (map ?P [1..<?n]) ?M = 0" by (rule count_notin [OF a])
  have c2: "count_list (concat (map ?row [1..<?n])) ?M = 0" by (rule count_notin [OF b])
  have "count_list (cyclic_fragments mass_table peptide) ?M
          = count_list (map ?P [1..<?n]) ?M + count_list [?M] ?M
            + count_list (concat (map ?row [1..<?n])) ?M"
    by (simp only: split row0 count_list_append)
  then show ?thesis by (simp only: c1 c2) simp
qed

section \<open>The matching loop counts a multiset intersection\<close>

lemma score_loop_inter:
  "score_loop ws score spectrum_copy = score + size (mset ws \<inter># mset spectrum_copy)"
proof (induction ws arbitrary: score spectrum_copy)
  case Nil
  then show ?case by simp
next
  case (Cons w ws)
  show ?case
  proof (cases "w \<in> set spectrum_copy")
    case True
    then have "w \<in># mset spectrum_copy" by simp
    then have "add_mset w (mset ws) \<inter># mset spectrum_copy
                 = add_mset w (mset ws \<inter># (mset spectrum_copy - {#w#}))"
      by (rule inter_add_left2)
    then show ?thesis using True Cons.IH [of "score + 1" "remove1 w spectrum_copy"] by simp
  next
    case False
    then have "\<not> w \<in># mset spectrum_copy" by simp
    then have "add_mset w (mset ws) \<inter># mset spectrum_copy = mset ws \<inter># mset spectrum_copy"
      by (rule inter_add_left1)
    then show ?thesis using False Cons.IH [of score spectrum_copy] by simp
  qed
qed

lemma size_inter_sum:
  "size (mset xs \<inter># mset ys) = (\<Sum>v \<in> set xs \<union> set ys. min (count_list xs v) (count_list ys v))"
proof -
  let ?I = "mset xs \<inter># mset ys"
  have "size ?I = (\<Sum>v \<in> set_mset ?I. count ?I v)" by (rule size_multiset_overloaded_eq)
  also have "\<dots> = (\<Sum>v \<in> set xs \<union> set ys. count ?I v)"
    by (rule sum.mono_neutral_left) (auto simp: not_in_iff)
  also have "\<dots> = (\<Sum>v \<in> set xs \<union> set ys. min (count_list xs v) (count_list ys v))"
    by (simp add: count_mset)
  finally show ?thesis .
qed

section \<open>Trimming: the scoring pass and the cutoff\<close>

lemma fromkeys_distinct: "distinct xs \<Longrightarrow> fromkeys xs = xs"
  by (induction xs) (simp_all add: removeAll_id)

lemma linear_score_covered:
  assumes "is_dict mass_table" and "covers mass_table peptide"
  shows "cyclopeptide_scoring peptide spectrum False mass_table =
           Inr (linear_score spectrum mass_table peptide)"
  using linear_spectrum_covered [OF assms]
  by (simp add: linear_score_def cyclopeptide_scoring_def)

lemma cyclic_score_covered:
  assumes "is_dict mass_table" and "covers mass_table peptide"
  shows "cyclopeptide_scoring peptide spectrum True mass_table =
           Inr (cyclic_score spectrum mass_table peptide)"
  using cyclic_spectrum_covered [OF assms]
  by (simp add: cyclic_score_def cyclopeptide_scoring_def)

lemma fill_scores:
  assumes "is_dict mass_table" and "covers_all mass_table ks"
  shows "for_each ks
           (\<lambda>key linear_scores.
              case cyclopeptide_scoring key spectrum False mass_table of
                Inl e \<Rightarrow> Inl e
              | Inr score \<Rightarrow> Inr (linear_scores @ [(key, score)]))
           acc
         = Inr (acc @ map (\<lambda>k. (k, linear_score spectrum mass_table k)) ks)"
proof -
  have "for_each ks
           (\<lambda>key linear_scores.
              case cyclopeptide_scoring key spectrum False mass_table of
                Inl e \<Rightarrow> Inl e
              | Inr score \<Rightarrow> Inr (linear_scores @ [(key, score)]))
           acc
         = Inr (acc @ concat (map (\<lambda>k. [(k, linear_score spectrum mass_table k)]) ks))"
    using assms by (intro for_each_collect) (simp add: linear_score_covered covers_all_def)
  then show ?thesis by (simp add: concat_map_singleton)
qed

lemma kept_by_score:
  "map fst (filter (\<lambda>(key, value). t \<le> value) (map (\<lambda>k. (k, f k)) ks)) = filter (\<lambda>k. t \<le> f k) ks"
  by (induction ks) simp_all

lemma trim_scored:
  assumes "is_dict mass_table" and "covers_all mass_table board"
    and "distinct board" and "1 \<le> n" and "n \<le> int (length board)"
  shows "trim board spectrum n mass_table =
           Inr (filter (\<lambda>p. nth_highest (map (linear_score spectrum mass_table) board) n
                               \<le> linear_score spectrum mass_table p) board)"
proof -
  let ?sc = "linear_score spectrum mass_table"
  let ?d = "rev (sort (map ?sc board))"
  have len: "length ?d = length board" by simp
  have idx: "py_index ?d (n - 1) = Inr (?d ! nat (n - 1))"
    using assms(4,5) unfolding py_index_def len by simp
  have "\<not> int (length board) < n" using assms(5) by simp
  then show ?thesis
    unfolding trim_def fromkeys_distinct [OF assms(3)]
      fill_scores [OF assms(1,2), of spectrum "[]"]
    using idx by (simp add: comp_def kept_by_score nth_highest_def del: sort_key_simps)
qed

lemma descending_prefix:
  fixes d :: "nat list"
  assumes "sorted (rev d)" and "k < length d"
  shows "Suc k \<le> length (filter (\<lambda>v. d ! k \<le> v) d)"
proof -
  have "\<forall>v \<in> set (take (Suc k) d). d ! k \<le> v"
  proof
    fix v assume "v \<in> set (take (Suc k) d)"
    then obtain i where i: "i < Suc k" "v = d ! i"
      using assms(2) by (auto simp: in_set_conv_nth)
    then show "d ! k \<le> v" using sorted_rev_nth_mono [OF assms(1), of i k] assms(2) by simp
  qed
  then have "filter (\<lambda>v. d ! k \<le> v) (take (Suc k) d) = take (Suc k) d" by simp
  moreover have "d = take (Suc k) d @ drop (Suc k) d" by simp
  ultimately have "filter (\<lambda>v. d ! k \<le> v) d
                     = take (Suc k) d @ filter (\<lambda>v. d ! k \<le> v) (drop (Suc k) d)"
    by (metis filter_append)
  then have "length (filter (\<lambda>v. d ! k \<le> v) d) \<ge> length (take (Suc k) d)"
    by simp
  then show ?thesis using assms(2) by simp
qed

lemma kept_at_least:
  fixes f :: "'a \<Rightarrow> nat"
  assumes "1 \<le> n" and "n \<le> int (length board)"
  shows "n \<le> int (length (filter (\<lambda>p. nth_highest (map f board) n \<le> f p) board))"
proof -
  let ?d = "rev (sort (map f board))"
  let ?k = "nat (n - 1)"
  let ?t = "?d ! ?k"
  have k: "?k < length ?d" using assms by simp
  have srt: "sorted (rev ?d)" by simp
  have "length (filter (\<lambda>p. ?t \<le> f p) board) = length (filter (\<lambda>v. ?t \<le> v) (map f board))"
    by (simp add: filter_map comp_def)
  also have "\<dots> = size (filter_mset (\<lambda>v. ?t \<le> v) (mset (map f board)))"
    by (metis mset_filter size_mset)
  also have "\<dots> = size (filter_mset (\<lambda>v. ?t \<le> v) (mset ?d))"
    by simp
  also have "\<dots> = length (filter (\<lambda>v. ?t \<le> v) ?d)"
    by (metis mset_filter size_mset)
  finally have "length (filter (\<lambda>p. ?t \<le> f p) board) = length (filter (\<lambda>v. ?t \<le> v) ?d)" .
  moreover have "Suc ?k \<le> length (filter (\<lambda>v. ?t \<le> v) ?d)"
    by (rule descending_prefix [OF srt k])
  ultimately show ?thesis using assms(1) by (simp add: nth_highest_def)
qed

lemma lowest_kept:
  fixes f :: "'a \<Rightarrow> nat"
  assumes "board \<noteq> []" and "p \<in> set board"
  shows "nth_highest (map f board) (int (length board)) \<le> f p"
proof -
  let ?d = "rev (sort (map f board))"
  let ?k = "nat (int (length board) - 1)"
  have k: "?k < length ?d" using assms(1) by (cases board) simp_all
  have "f p \<in> set ?d" using assms(2) by simp
  then obtain i where i: "i < length ?d" "?d ! i = f p" unfolding in_set_conv_nth by blast
  then have "i \<le> ?k" by simp
  then have "?d ! ?k \<le> ?d ! i" using sorted_rev_nth_mono [of ?d i ?k] k by simp
  then show ?thesis using i by (simp add: nth_highest_def)
qed

section \<open>The sequencer: one pass over the candidates\<close>

lemma examine_leader:
  assumes "examine spectrum mass_table p (L, s, rem) = Inr (L', s', rem')"
  shows "s \<le> s' \<and>
         (peptide_mass p mass_table = py_max spectrum \<longrightarrow>
            (\<exists>c. cyclopeptide_scoring p spectrum True mass_table = Inr c \<and> c \<le> s')) \<and>
         ((L', s') = (L, s) \<or>
          (L' = p \<and> peptide_mass p mass_table = py_max spectrum \<and>
           cyclopeptide_scoring p spectrum True mass_table = Inr s' \<and> s < s'))"
  using assms by (auto simp: examine_def split: sum.splits if_splits)

lemma scan_leader:
  assumes "for_each ps (examine spectrum mass_table) (L, s, rem) = Inr (L', s', rem')"
  shows "s \<le> s' \<and>
         (\<forall>q \<in> set ps. peptide_mass q mass_table = py_max spectrum \<longrightarrow>
            (\<exists>c. cyclopeptide_scoring q spectrum True mass_table = Inr c \<and> c \<le> s')) \<and>
         ((L', s') = (L, s) \<or>
          (\<exists>ps1 ps2. ps = ps1 @ L' # ps2 \<and>
             peptide_mass L' mass_table = py_max spectrum \<and>
             cyclopeptide_scoring L' spectrum True mass_table = Inr s' \<and> s < s' \<and>
             (\<forall>q \<in> set ps1. peptide_mass q mass_table = py_max spectrum \<longrightarrow>
                (\<exists>c. cyclopeptide_scoring q spectrum True mass_table = Inr c \<and> c < s'))))"
  using assms
proof (induction ps arbitrary: L s rem)
  case Nil
  then show ?case by simp
next
  case (Cons p ps)
  let ?full = "\<lambda>q. peptide_mass q mass_table = py_max spectrum"
  let ?score = "\<lambda>q. cyclopeptide_scoring q spectrum True mass_table"
  from Cons.prems obtain L1 s1 rem1 where
    step: "examine spectrum mass_table p (L, s, rem) = Inr (L1, s1, rem1)" and
    rest: "for_each ps (examine spectrum mass_table) (L1, s1, rem1) = Inr (L', s', rem')"
    by (auto split: sum.splits)
  note st = examine_leader [OF step]
  note ih = Cons.IH [OF rest]
  from st ih have mono: "s \<le> s'" by linarith
  have all: "\<forall>q \<in> set (p # ps). ?full q \<longrightarrow> (\<exists>c. ?score q = Inr c \<and> c \<le> s')"
  proof
    fix q assume q: "q \<in> set (p # ps)"
    show "?full q \<longrightarrow> (\<exists>c. ?score q = Inr c \<and> c \<le> s')"
    proof (cases "q = p")
      case True
      show ?thesis
      proof
        assume "?full q"
        with True st obtain c where "?score p = Inr c" "c \<le> s1" by blast
        moreover have "s1 \<le> s'" using ih by simp
        ultimately show "\<exists>c. ?score q = Inr c \<and> c \<le> s'" using True by auto
      qed
    next
      case False
      with q have "q \<in> set ps" by simp
      then show ?thesis using ih by blast
    qed
  qed
  have lead: "(L', s') = (L, s) \<or>
          (\<exists>ps1 ps2. p # ps = ps1 @ L' # ps2 \<and> ?full L' \<and> ?score L' = Inr s' \<and> s < s' \<and>
             (\<forall>q \<in> set ps1. ?full q \<longrightarrow> (\<exists>c. ?score q = Inr c \<and> c < s')))"
  proof (cases "(L', s') = (L1, s1)")
    case same: True
    show ?thesis
    proof (cases "(L1, s1) = (L, s)")
      case True
      with same show ?thesis by simp
    next
      case False
      with st have new: "L1 = p" "?full p" "?score p = Inr s1" "s < s1" by auto
      have "p # ps = [] @ L' # ps" using same new by simp
      moreover have "\<forall>q \<in> set []. ?full q \<longrightarrow> (\<exists>c. ?score q = Inr c \<and> c < s')" by simp
      ultimately show ?thesis using same new by blast
    qed
  next
    case False
    with ih obtain ps1 ps2 where sp: "ps = ps1 @ L' # ps2" "?full L'" "?score L' = Inr s'" "s1 < s'"
      and before: "\<forall>q \<in> set ps1. ?full q \<longrightarrow> (\<exists>c. ?score q = Inr c \<and> c < s')"
      by blast
    have a: "p # ps = (p # ps1) @ L' # ps2" using sp by simp
    have b: "s < s'" using st sp by linarith
    have c: "\<forall>q \<in> set (p # ps1). ?full q \<longrightarrow> (\<exists>c. ?score q = Inr c \<and> c < s')"
    proof
      fix q assume q: "q \<in> set (p # ps1)"
      show "?full q \<longrightarrow> (\<exists>c. ?score q = Inr c \<and> c < s')"
      proof (cases "q = p")
        case True
        show ?thesis
        proof
          assume "?full q"
          with True st obtain c where "?score p = Inr c" "c \<le> s1" by blast
          then show "\<exists>c. ?score q = Inr c \<and> c < s'" using True sp(4) by auto
        qed
      next
        case False
        with q have "q \<in> set ps1" by simp
        then show ?thesis using before by blast
      qed
    qed
    from a b c sp show ?thesis by blast
  qed
  from mono all lead show ?case by blast
qed

lemma mass_filter_scan:
  assumes "mass_filter spectrum mass_table st = Inr st'"
  shows "\<exists>rem. for_each (expand (keys mass_table) (leader_board st)) (examine spectrum mass_table)
                  (leader_peptide st, leader_peptide_score st, [])
               = Inr (leader_peptide st', leader_peptide_score st', rem)"
  using assms by (auto simp: mass_filter_def Let_def split: sum.splits prod.splits)

lemma round_body_leader:
  assumes "round_body spectrum n mass_table st = Inr (st', continue)"
  shows "\<exists>st1. mass_filter spectrum mass_table st = Inr st1 \<and>
               leader_peptide st' = leader_peptide st1 \<and>
               leader_peptide_score st' = leader_peptide_score st1"
  using assms by (auto simp: round_body_def split: sum.splits if_splits)

section \<open>The leader over a whole run\<close>

text \<open>
  The facts about one round compose along the \<open>while\<close> loop: whenever the run returns, the
  final leader is the initial one with its score, or a peptide whose mass is the maximum of
  the spectrum and whose cyclic score is the final, strictly greater, leader score. The
  answer of the sequencer is therefore the empty peptide or such a peptide.
\<close>

lemma round_leader_step:
  assumes "round_body spectrum n mass_table st = Inr (st', continue)"
  shows "leader_peptide_score st \<le> leader_peptide_score st' \<and>
         ((leader_peptide st', leader_peptide_score st') =
            (leader_peptide st, leader_peptide_score st) \<or>
          (peptide_mass (leader_peptide st') mass_table = py_max spectrum \<and>
           cyclopeptide_scoring (leader_peptide st') spectrum True mass_table =
             Inr (leader_peptide_score st') \<and>
           leader_peptide_score st < leader_peptide_score st'))"
proof -
  from round_body_leader [OF assms] obtain st1 where
    mf: "mass_filter spectrum mass_table st = Inr st1" and
    eq: "leader_peptide st' = leader_peptide st1"
        "leader_peptide_score st' = leader_peptide_score st1"
    by blast
  from mass_filter_scan [OF mf] obtain rem where
    "for_each (expand (keys mass_table) (leader_board st)) (examine spectrum mass_table)
       (leader_peptide st, leader_peptide_score st, [])
     = Inr (leader_peptide st1, leader_peptide_score st1, rem)"
    by blast
  from scan_leader [OF this] show ?thesis unfolding eq by blast
qed

lemma leader_steps_compose:
  fixes s0 s1 s2 :: nat
  assumes "s0 \<le> s1 \<and> ((L1, s1) = (L0, s0) \<or> (F L1 s1 \<and> s0 < s1))"
    and "s1 \<le> s2 \<and> ((L2, s2) = (L1, s1) \<or> (F L2 s2 \<and> s1 < s2))"
  shows "s0 \<le> s2 \<and> ((L2, s2) = (L0, s0) \<or> (F L2 s2 \<and> s0 < s2))"
proof -
  from assms have le: "s0 \<le> s2" by linarith
  show ?thesis
  proof (cases "(L2, s2) = (L1, s1)")
    case True
    with assms(1) le show ?thesis by auto
  next
    case False
    with assms(2) have "F L2 s2" "s1 < s2" by auto
    with assms(1) le show ?thesis by auto
  qed
qed

lemma run_leader_any:
  "sequencing_loop spectrum n mass_table st = Some y \<Longrightarrow>
   \<forall>st'. y = Inr st' \<longrightarrow>
     leader_peptide_score st \<le> leader_peptide_score st' \<and>
     ((leader_peptide st', leader_peptide_score st') =
        (leader_peptide st, leader_peptide_score st) \<or>
      (peptide_mass (leader_peptide st') mass_table = py_max spectrum \<and>
       cyclopeptide_scoring (leader_peptide st') spectrum True mass_table =
         Inr (leader_peptide_score st') \<and>
       leader_peptide_score st < leader_peptide_score st'))"
proof (induction rule: sequencing_loop.raw_induct [rotated 1, consumes 1, case_names unfold])
  case (unfold loop spectrum n mass_table st y)
  note 1 = unfold
  show ?case
  proof (cases "leader_board st = []")
    case True
    with 1(2) show ?thesis by auto
  next
    case False
    show ?thesis
    proof (cases "round_body spectrum n mass_table st")
      case (Inl e)
      with False 1(2) show ?thesis by auto
    next
      case (Inr r)
      obtain st1 continue where r: "r = (st1, continue)" by (cases r)
      note step = round_leader_step [OF Inr [unfolded r]]
      show ?thesis
      proof (cases continue)
        case True
        with False 1(2) Inr r have "loop spectrum n mass_table st1 = Some y" by simp
        note ih = 1(1) [OF this]
        show ?thesis
        proof (intro allI impI)
          fix st' assume "y = Inr st'"
          with ih have rest: "leader_peptide_score st1 \<le> leader_peptide_score st' \<and>
             ((leader_peptide st', leader_peptide_score st') =
                (leader_peptide st1, leader_peptide_score st1) \<or>
              (peptide_mass (leader_peptide st') mass_table = py_max spectrum \<and>
               cyclopeptide_scoring (leader_peptide st') spectrum True mass_table =
                 Inr (leader_peptide_score st') \<and>
               leader_peptide_score st1 < leader_peptide_score st'))"
            by blast
          show "leader_peptide_score st \<le> leader_peptide_score st' \<and>
             ((leader_peptide st', leader_peptide_score st') =
                (leader_peptide st, leader_peptide_score st) \<or>
              (peptide_mass (leader_peptide st') mass_table = py_max spectrum \<and>
               cyclopeptide_scoring (leader_peptide st') spectrum True mass_table =
                 Inr (leader_peptide_score st') \<and>
               leader_peptide_score st < leader_peptide_score st'))"
            using step rest
              leader_steps_compose
                [where F = "\<lambda>L s. peptide_mass L mass_table = py_max spectrum \<and>
                                  cyclopeptide_scoring L spectrum True mass_table = Inr s"
                   and ?s0.0 = "leader_peptide_score st" and ?L0.0 = "leader_peptide st"
                   and ?s1.0 = "leader_peptide_score st1" and ?L1.0 = "leader_peptide st1"
                   and ?s2.0 = "leader_peptide_score st'" and ?L2.0 = "leader_peptide st'"]
            by (simp only: conj_assoc)
        qed
      next
        case stop: False
        with False 1(2) Inr r have "y = Inr st1" by simp
        with step show ?thesis by auto
      qed
    qed
  qed
qed

lemma run_leader:
  assumes "sequencing_loop spectrum n mass_table st = Some (Inr st')"
  shows "leader_peptide_score st \<le> leader_peptide_score st' \<and>
         ((leader_peptide st', leader_peptide_score st') =
            (leader_peptide st, leader_peptide_score st) \<or>
          (peptide_mass (leader_peptide st') mass_table = py_max spectrum \<and>
           cyclopeptide_scoring (leader_peptide st') spectrum True mass_table =
             Inr (leader_peptide_score st') \<and>
           leader_peptide_score st < leader_peptide_score st'))"
  using run_leader_any [OF assms] by blast

lemma answer_is_full_mass:
  assumes "leaderboard_peptide_sequencing spectrum n mass_table = Some (Inr p)"
  shows "p = '''' \<or>
         (peptide_mass p mass_table = py_max spectrum \<and>
          (\<exists>c. cyclopeptide_scoring p spectrum True mass_table = Inr c \<and> 0 < c))"
proof -
  from assms obtain st' where
    run: "sequencing_loop spectrum n mass_table initial_state = Some (Inr st')" and
    p: "p = leader_peptide st'"
    by (auto simp: leaderboard_peptide_sequencing_def split: option.splits sum.splits)
  from run_leader [OF run] show ?thesis
    unfolding p by (auto simp: initial_state_def)
qed

section \<open>The sequencer on covered leaderboards\<close>

lemma py_max_nonempty: "spectrum \<noteq> [] \<Longrightarrow> py_max spectrum = Inr (spectrum_max spectrum)"
  by (simp add: py_max_def spectrum_max_def)

lemma examine_covered:
  assumes "is_dict mass_table" and "covers mass_table p" and "spectrum \<noteq> []"
  shows "\<exists>L' s'. examine spectrum mass_table p (L, s, rem) =
           Inr (L', s', if over_bound spectrum mass_table p then rem @ [p] else rem)"
  by (simp add: examine_def peptide_mass_covered [OF assms(2)] py_max_nonempty [OF assms(3)]
      cyclic_score_covered [OF assms(1,2)] over_bound_def)

lemma scan_covered:
  assumes "is_dict mass_table" and "spectrum \<noteq> []"
  shows "covers_all mass_table ps \<Longrightarrow>
         \<exists>L' s'. for_each ps (examine spectrum mass_table) (L, s, rem) =
           Inr (L', s', rem @ filter (over_bound spectrum mass_table) ps)"
proof (induction ps arbitrary: L s rem)
  case Nil
  then show ?case by simp
next
  case (Cons p ps)
  then have p: "covers mass_table p" and ps: "covers_all mass_table ps"
    by (simp_all add: covers_all_def)
  from examine_covered [OF assms(1) p assms(2), of L s rem] obtain L1 s1 where
    step: "examine spectrum mass_table p (L, s, rem) =
             Inr (L1, s1, if over_bound spectrum mass_table p then rem @ [p] else rem)"
    by blast
  from Cons.IH [OF ps, of L1 s1 "if over_bound spectrum mass_table p then rem @ [p] else rem"]
  show ?case unfolding for_each.simps step by auto
qed

lemma remove_filtered:
  "\<forall>y \<in> set ys. \<not> P y \<Longrightarrow>
     for_each (filter P ps) (\<lambda>p b. py_remove b p) (ys @ ps) = Inr (ys @ filter (\<lambda>q. \<not> P q) ps)"
proof (induction ps arbitrary: ys)
  case Nil
  then show ?case by simp
next
  case (Cons p ps)
  show ?case
  proof (cases "P p")
    case True
    then have "p \<notin> set ys" using Cons.prems by auto
    then have "remove1 p (ys @ p # ps) = ys @ ps" by (simp add: remove1_append)
    then have "py_remove (ys @ p # ps) p = Inr (ys @ ps)" by (simp add: py_remove_def)
    then show ?thesis using True Cons.IH [OF Cons.prems] by simp
  next
    case False
    then have "\<forall>y \<in> set (ys @ [p]). \<not> P y" using Cons.prems by simp
    from Cons.IH [OF this] show ?thesis using False by simp
  qed
qed

lemma expand_member:
  "q \<in> set (expand ks board) \<longleftrightarrow> (\<exists>ele \<in> set board. \<exists>aa \<in> set ks. q = ele @ [aa])"
  by (auto simp: expand_def)

lemma expand_covers:
  assumes "covers_all mass_table board"
  shows "covers_all mass_table (expand (keys mass_table) board)"
  using assms by (fastforce simp: covers_all_def covers_def expand_member)

lemma expand_length:
  assumes "\<forall>p \<in> set board. length p = k"
  shows "\<forall>q \<in> set (expand ks board). length q = Suc k"
  using assms by (auto simp: expand_member)

lemma expand_distinct:
  assumes "distinct board"
  shows "distinct ks \<Longrightarrow> distinct (expand ks board)"
proof (induction ks)
  case Nil
  then show ?case by (simp add: expand_def)
next
  case (Cons a ks)
  have inj: "distinct (map (\<lambda>ele. ele @ [a]) board)"
    using assms by (simp add: distinct_map inj_on_def)
  have tail: "distinct (expand ks board)" using Cons by simp
  have disj: "set (map (\<lambda>ele. ele @ [a]) board) \<inter> set (expand ks board) = {}"
    using Cons.prems by (auto simp: expand_member)
  have "expand (a # ks) board = map (\<lambda>ele. ele @ [a]) board @ expand ks board"
    by (simp add: expand_def)
  then show ?case using inj tail disj by simp
qed

lemma mass_filter_covered:
  assumes "is_dict mass_table" and "spectrum \<noteq> []" and "covers_all mass_table (leader_board st)"
  shows "\<exists>L' s'. mass_filter spectrum mass_table st =
           Inr \<lparr>leader_board = filter (\<lambda>q. \<not> over_bound spectrum mass_table q)
                                  (expand (keys mass_table) (leader_board st)),
                leader_peptide = L', leader_peptide_score = s'\<rparr>"
proof -
  let ?board = "expand (keys mass_table) (leader_board st)"
  from scan_covered [OF assms(1,2) expand_covers [OF assms(3)],
      of "leader_peptide st" "leader_peptide_score st" "[]"]
  obtain L' s' where scan:
    "for_each ?board (examine spectrum mass_table) (leader_peptide st, leader_peptide_score st, [])
     = Inr (L', s', filter (over_bound spectrum mass_table) ?board)"
    by auto
  have "for_each (filter (over_bound spectrum mass_table) ?board) (\<lambda>p b. py_remove b p) ([] @ ?board)
          = Inr ([] @ filter (\<lambda>q. \<not> over_bound spectrum mass_table q) ?board)"
    by (rule remove_filtered) simp
  then have rm: "for_each (filter (over_bound spectrum mass_table) ?board) (\<lambda>p b. py_remove b p) ?board
          = Inr (filter (\<lambda>q. \<not> over_bound spectrum mass_table q) ?board)"
    by simp
  show ?thesis unfolding mass_filter_def Let_def scan using rm by simp
qed

section \<open>Every round succeeds and the peptides grow\<close>

lemma mass_ge_length:
  assumes "positive_masses mass_table"
  shows "covers mass_table p \<Longrightarrow> int (length p) \<le> mass_sum mass_table p"
proof (induction p)
  case Nil
  then show ?case by (simp add: mass_sum_def)
next
  case (Cons c cs)
  then have c: "c \<in> set (keys mass_table)" and cs: "covers mass_table cs"
    by (simp_all add: covers_def)
  have "0 < residue_mass mass_table c" by (rule residue_mass_pos [OF assms c])
  then show ?case using Cons.IH [OF cs] by (simp add: mass_sum_def)
qed

lemma trim_filter:
  assumes "is_dict mass_table" and "covers_all mass_table board" and "distinct board"
    and "0 \<le> n" and "board \<noteq> []"
  shows "\<exists>P. trim board spectrum n mass_table = Inr (filter P board)"
proof (cases "int (length board) < n")
  case True
  then have "trim board spectrum n mass_table = Inr (filter (\<lambda>p. True) board)"
    by (simp add: trim_def)
  then show ?thesis by blast
next
  case False
  let ?sc = "linear_score spectrum mass_table"
  let ?d = "rev (sort (map ?sc board))"
  have len: "length ?d = length board" by simp
  have pos: "1 \<le> int (length board)" using assms(5) by (cases board) simp_all
  have "\<exists>t. py_index ?d (n - 1) = Inr t"
  proof (cases "n = 0")
    case True
    then show ?thesis using pos unfolding py_index_def len by simp
  next
    case nz: False
    then have "0 \<le> n - 1 \<and> n - 1 < int (length board)" using False assms(4) by linarith
    then show ?thesis unfolding py_index_def len by simp
  qed
  then obtain t where idx: "py_index ?d (n - 1) = Inr t" by blast
  have "trim board spectrum n mass_table = Inr (filter (\<lambda>p. t \<le> ?sc p) board)"
    unfolding trim_def fromkeys_distinct [OF assms(3)]
      fill_scores [OF assms(1,2), of spectrum "[]"]
    using False idx by (simp add: comp_def kept_by_score del: sort_key_simps)
  then show ?thesis by blast
qed

lemma round_ok:
  assumes "is_dict mass_table" and "positive_masses mass_table" and "spectrum \<noteq> []"
    and "0 \<le> n" and "round_inv mass_table k st"
  shows "\<exists>st' continue.
           round_body spectrum n mass_table st = Inr (st', continue) \<and>
           round_inv mass_table (Suc k) st' \<and>
           (\<not> continue \<longrightarrow> leader_board st' = []) \<and>
           (leader_board st' \<noteq> [] \<longrightarrow> int (Suc k) \<le> spectrum_max spectrum)"
proof -
  let ?board = "expand (keys mass_table) (leader_board st)"
  let ?kept = "filter (\<lambda>q. \<not> over_bound spectrum mass_table q) ?board"
  from assms(5) have dist: "distinct (leader_board st)"
    and cov: "covers_all mass_table (leader_board st)"
    and len: "\<forall>p \<in> set (leader_board st). length p = k"
    by (simp_all add: round_inv_def)
  from mass_filter_covered [OF assms(1,3) cov] obtain L' s' where
    mf: "mass_filter spectrum mass_table st =
           Inr \<lparr>leader_board = ?kept, leader_peptide = L', leader_peptide_score = s'\<rparr>"
    by blast
  have keys: "distinct (keys mass_table)" using assms(1) by (simp add: is_dict_def keys_def)
  have bdist: "distinct ?board" by (rule expand_distinct [OF dist keys])
  have bcov: "covers_all mass_table ?board" by (rule expand_covers [OF cov])
  have blen: "\<forall>q \<in> set ?board. length q = Suc k" by (rule expand_length [OF len])
  have bound: "int (Suc k) \<le> spectrum_max spectrum" if "q \<in> set ?board"
    and "\<not> over_bound spectrum mass_table q" for q
  proof -
    have "covers mass_table q" using bcov that(1) by (simp add: covers_all_def)
    then have "int (length q) \<le> mass_sum mass_table q" by (rule mass_ge_length [OF assms(2)])
    moreover have "length q = Suc k" using blen that(1) by simp
    ultimately show ?thesis using that(2) by (simp add: over_bound_def)
  qed
  show ?thesis
  proof (cases "?kept = []")
    case True
    then have "round_body spectrum n mass_table st =
                 Inr (\<lparr>leader_board = [], leader_peptide = L', leader_peptide_score = s'\<rparr>, False)"
      by (simp add: round_body_def mf)
    then show ?thesis
      by (intro exI [of _ "\<lparr>leader_board = [], leader_peptide = L', leader_peptide_score = s'\<rparr>"]
          exI [of _ False]) (simp add: round_inv_def covers_all_def)
  next
    case False
    have kdist: "distinct ?kept" using bdist by simp
    have kcov: "covers_all mass_table ?kept" using bcov by (simp add: covers_all_def)
    from trim_filter [OF assms(1) kcov kdist assms(4) False, of spectrum] obtain P where
      tr: "trim ?kept spectrum n mass_table = Inr (filter P ?kept)" by blast
    have rb: "round_body spectrum n mass_table st =
                 Inr (\<lparr>leader_board = filter P ?kept, leader_peptide = L',
                       leader_peptide_score = s'\<rparr>, True)"
      using False by (simp add: round_body_def mf tr)
    have inv: "round_inv mass_table (Suc k)
                 \<lparr>leader_board = filter P ?kept, leader_peptide = L', leader_peptide_score = s'\<rparr>"
      using bdist bcov blen by (simp add: round_inv_def covers_all_def)
    have "int (Suc k) \<le> spectrum_max spectrum" if "filter P ?kept \<noteq> []"
    proof -
      from that have "hd (filter P ?kept) \<in> set (filter P ?kept)" by (rule hd_in_set)
      then obtain q where "q \<in> set (filter P ?kept)" by blast
      then have "q \<in> set ?board" "\<not> over_bound spectrum mass_table q" by simp_all
      then show ?thesis by (rule bound)
    qed
    with rb inv show ?thesis
      by (intro exI [of _ "\<lparr>leader_board = filter P ?kept, leader_peptide = L',
                            leader_peptide_score = s'\<rparr>"]
          exI [of _ True]) simp
  qed
qed

lemma loop_terminates:
  assumes "is_dict mass_table" and "positive_masses mass_table" and "spectrum \<noteq> []"
    and "0 \<le> n"
  shows "round_inv mass_table k st \<Longrightarrow>
         \<exists>st'. sequencing_loop spectrum n mass_table st = Some (Inr st') \<and> leader_board st' = []"
proof (induction "nat (spectrum_max spectrum + 1) - k" arbitrary: k st rule: less_induct)
  case less
  show ?case
  proof (cases "leader_board st = []")
    case True
    then show ?thesis by (subst sequencing_loop.simps) simp
  next
    case False
    from round_ok [OF assms less.prems] obtain st1 continue where
      rb: "round_body spectrum n mass_table st = Inr (st1, continue)" and
      inv: "round_inv mass_table (Suc k) st1" and
      brk: "\<not> continue \<longrightarrow> leader_board st1 = []" and
      bnd: "leader_board st1 \<noteq> [] \<longrightarrow> int (Suc k) \<le> spectrum_max spectrum"
      by blast
    show ?thesis
    proof (cases continue)
      case stop: False
      with brk have "leader_board st1 = []" by simp
      moreover have "sequencing_loop spectrum n mass_table st = Some (Inr st1)"
        using False rb stop by (subst sequencing_loop.simps) simp
      ultimately show ?thesis by blast
    next
      case go: True
      have unfold: "sequencing_loop spectrum n mass_table st
                      = sequencing_loop spectrum n mass_table st1"
        using False rb go by (subst sequencing_loop.simps) simp
      show ?thesis
      proof (cases "leader_board st1 = []")
        case True
        then have "sequencing_loop spectrum n mass_table st1 = Some (Inr st1)"
          by (subst sequencing_loop.simps) simp
        with unfold True show ?thesis by simp
      next
        case False
        with bnd have "int (Suc k) \<le> spectrum_max spectrum" by simp
        then have "nat (spectrum_max spectrum + 1) - Suc k < nat (spectrum_max spectrum + 1) - k"
          by linarith
        from less.hyps [OF this inv] show ?thesis unfolding unfold .
      qed
    qed
  qed
qed

section \<open>The worked example of the linear spectrum\<close>

text \<open>
  C6 (as amended). With the table \<open>{A: 71, C: 103}\<close> the peptide \<open>ACA\<close> has the prefix
  masses 0, 71, 174, 245 and six fragments, so \<open>linear_spectrum\<close> returns the seven masses
  0, 71, 71, 103, 174, 174, 245: the mass 103 of the single residue C occurs once.
\<close>

theorem linear_spectrum_ACA:
  "linear_spectrum ''ACA'' [(CHR ''A'', 71), (CHR ''C'', 103)] =
     Inr [0, 71, 71, 103, 174, 174, 245]"
  by code_simp

text \<open>
  The list of eight masses with 103 twice is not what \<open>linear_spectrum\<close> returns
  for \<open>ACA\<close>.
\<close>

theorem linear_spectrum_ACA_counterexample:
  "linear_spectrum ''ACA'' [(CHR ''A'', 71), (CHR ''C'', 103)] \<noteq>
     Inr [0, 71, 71, 103, 103, 174, 174, 245]"
  by code_simp

section \<open>Shape of the spectra\<close>

text \<open>
  C3. For a peptide of length \<open>n\<close> over the keys of the table, with positive residue masses,
  \<open>linear_spectrum\<close> returns a list of exactly \<open>n(n+1)/2 + 1\<close> masses in ascending order
  whose first (smallest) element is 0 and whose last (largest) element is the total mass
  that \<open>peptide_mass\<close> computes.
\<close>

theorem linear_spectrum_shape:
  assumes "is_dict mass_table" and "covers mass_table peptide" and "positive_masses mass_table"
  shows "\<exists>s total_mass.
           linear_spectrum peptide mass_table = Inr s \<and>
           peptide_mass peptide mass_table = Inr total_mass \<and>
           length s = length peptide * (length peptide + 1) div 2 + 1 \<and>
           sorted s \<and> hd s = 0 \<and> last s = total_mass"
proof -
  let ?F = "linear_fragments mass_table peptide"
  let ?M = "mass_sum mass_table peptide"
  define s where "s = sort (0 # ?F)"
  have run: "linear_spectrum peptide mass_table = Inr s"
    unfolding s_def by (rule linear_spectrum_covered [OF assms(1,2)])
  have srt: "sorted s" unfolding s_def by (rule sorted_sort)
  have set_s: "set s = insert 0 (set ?F)" unfolding s_def by (simp del: sort_key_simps)
  have "length s = Suc (length ?F)" unfolding s_def by (simp del: sort_key_simps)
  then have len: "length s = length peptide * (length peptide + 1) div 2 + 1"
    using length_linear_fragments [of mass_table peptide] by simp
  have nonneg: "0 \<le> ?M"
    using prefix_sum_mono [OF assms(3,2), of 0 "length peptide"]
    by (simp add: prefix_sum_0 prefix_sum_length)
  have bounds: "0 \<le> y \<and> y \<le> ?M" if "y \<in> set s" for y
  proof (cases "y = 0")
    case True
    with nonneg show ?thesis by simp
  next
    case False
    with that have "y \<in> set ?F" by (simp add: set_s)
    then show ?thesis using linear_fragments_bounds [OF assms(3,2)] by fastforce
  qed
  have top: "?M \<in> set s"
  proof (cases peptide)
    case Nil
    then show ?thesis by (simp add: set_s mass_sum_def)
  next
    case (Cons c cs)
    then have "1 \<le> length peptide" by simp
    then show ?thesis using linear_fragments_total [of peptide mass_table] by (simp add: set_s)
  qed
  have hd: "hd s = 0"
    by (rule sorted_hd_least [OF srt]) (use bounds in \<open>simp_all add: set_s\<close>)
  have last: "last s = ?M"
    by (rule sorted_last_greatest [OF srt top]) (use bounds in simp)
  show ?thesis
    using run peptide_mass_covered [OF assms(2)] len srt hd last by blast
qed

text \<open>The peptide \<open>ACA\<close> over \<open>{A: 71, C: 103}\<close> satisfies the hypotheses of C3.\<close>

theorem linear_spectrum_shape_witness:
  "is_dict [(CHR ''A'', 71), (CHR ''C'', 103)] \<and>
   covers [(CHR ''A'', 71), (CHR ''C'', 103)] ''ACA'' \<and>
   positive_masses [(CHR ''A'', 71), (CHR ''C'', 103)] \<and>
   (\<exists>s total_mass.
      linear_spectrum ''ACA'' [(CHR ''A'', 71), (CHR ''C'', 103)] = Inr s \<and>
      peptide_mass ''ACA'' [(CHR ''A'', 71), (CHR ''C'', 103)] = Inr total_mass \<and>
      length s = length ''ACA'' * (length ''ACA'' + 1) div 2 + 1 \<and>
      sorted s \<and> hd s = 0 \<and> last s = total_mass)"
proof -
  have d: "is_dict [(CHR ''A'', 71), (CHR ''C'', 103)]" by (simp add: is_dict_def)
  have c: "covers [(CHR ''A'', 71), (CHR ''C'', 103)] ''ACA''" by (simp add: covers_def keys_def)
  have p: "positive_masses [(CHR ''A'', 71), (CHR ''C'', 103)]" by (simp add: positive_masses_def)
  show ?thesis using d c p linear_spectrum_shape [OF d c p] by blast
qed

text \<open>
  C4. For a peptide of length \<open>n\<close> over the keys of the table, with positive residue masses,
  \<open>cyclic_spectrum\<close> returns an ascending list; for \<open>n \<ge> 1\<close> it has exactly
  \<open>n(n-1) + 2\<close> masses; for \<open>n \<ge> 2\<close> the total mass occurs exactly once in it and so
  does 0; for the empty peptide it is \<open>[0]\<close>.
\<close>

theorem cyclic_spectrum_shape:
  assumes "is_dict mass_table" and "covers mass_table peptide" and "positive_masses mass_table"
  shows "\<exists>s total_mass.
           cyclic_spectrum peptide mass_table = Inr s \<and>
           peptide_mass peptide mass_table = Inr total_mass \<and>
           sorted s \<and>
           (1 \<le> length peptide \<longrightarrow> length s = length peptide * (length peptide - 1) + 2) \<and>
           (2 \<le> length peptide \<longrightarrow> count_list s total_mass = 1 \<and> count_list s 0 = 1) \<and>
           (length peptide = 0 \<longrightarrow> s = [0])"
proof -
  let ?G = "cyclic_fragments mass_table peptide"
  let ?M = "mass_sum mass_table peptide"
  define s where "s = sort (0 # ?G)"
  have run: "cyclic_spectrum peptide mass_table = Inr s"
    unfolding s_def by (rule cyclic_spectrum_covered [OF assms(1,2)])
  have srt: "sorted s" unfolding s_def by (rule sorted_sort)
  have count: "count_list s v = count_list (0 # ?G) v" for v
    unfolding s_def by (metis count_mset mset_sort)
  have "length s = Suc (length ?G)" unfolding s_def by (simp del: sort_key_simps)
  then have len: "length s = length peptide * (length peptide - 1) + 2" if "1 \<le> length peptide"
    using length_cyclic_fragments [OF that, of mass_table] by simp
  have zero: "count_list s 0 = 1"
  proof -
    have "0 \<notin> set ?G" using cyclic_fragments_pos [OF assms(3,2)] by fastforce
    then have "count_list ?G 0 = 0" by (rule count_notin)
    then show ?thesis unfolding count by simp
  qed
  have total: "count_list s ?M = 1" if "2 \<le> length peptide"
  proof -
    from that have one: "1 \<le> length peptide" and lt: "0 < length peptide" by linarith+
    have "prefix_sum mass_table peptide 0 < prefix_sum mass_table peptide (length peptide)"
      by (rule prefix_sum_strict [OF assms(3,2) lt]) simp
    then have "0 < ?M" by (simp add: prefix_sum_0 prefix_sum_length)
    then show ?thesis
      unfolding count using cyclic_fragments_count_total [OF assms(3,2) one] by simp
  qed
  have empty: "s = [0]" if "length peptide = 0"
    using that by (simp add: s_def cyclic_fragments_def)
  show ?thesis
    using run peptide_mass_covered [OF assms(2)] srt len zero total empty by blast
qed

text \<open>
  The peptide \<open>ACA\<close> over \<open>{A: 71, C: 103}\<close> satisfies the hypotheses of C4 for
  \<open>n \<ge> 2\<close>, the empty peptide the one for length 0.
\<close>

theorem cyclic_spectrum_shape_witness:
  "is_dict [(CHR ''A'', 71), (CHR ''C'', 103)] \<and>
   covers [(CHR ''A'', 71), (CHR ''C'', 103)] ''ACA'' \<and>
   positive_masses [(CHR ''A'', 71), (CHR ''C'', 103)] \<and>
   1 \<le> length ''ACA'' \<and> 2 \<le> length ''ACA'' \<and>
   (\<exists>s total_mass.
      cyclic_spectrum ''ACA'' [(CHR ''A'', 71), (CHR ''C'', 103)] = Inr s \<and>
      peptide_mass ''ACA'' [(CHR ''A'', 71), (CHR ''C'', 103)] = Inr total_mass \<and>
      sorted s \<and> length s = length ''ACA'' * (length ''ACA'' - 1) + 2 \<and>
      count_list s total_mass = 1 \<and> count_list s 0 = 1) \<and>
   covers [(CHR ''A'', 71), (CHR ''C'', 103)] [] \<and> length ([] :: peptide) = 0 \<and>
   cyclic_spectrum [] [(CHR ''A'', 71), (CHR ''C'', 103)] = Inr [0]"
proof -
  have d: "is_dict [(CHR ''A'', 71), (CHR ''C'', 103)]" by (simp add: is_dict_def)
  have c: "covers [(CHR ''A'', 71), (CHR ''C'', 103)] ''ACA''" by (simp add: covers_def keys_def)
  have e: "covers [(CHR ''A'', 71), (CHR ''C'', 103)] []" by (simp add: covers_def)
  have p: "positive_masses [(CHR ''A'', 71), (CHR ''C'', 103)]" by (simp add: positive_masses_def)
  have h1: "1 \<le> length ''ACA''" and h2: "2 \<le> length ''ACA''" by simp_all
  have h0: "length ([] :: peptide) = 0" by simp
  have z: "cyclic_spectrum [] [(CHR ''A'', 71), (CHR ''C'', 103)] = Inr [0]"
    using h0 cyclic_spectrum_shape [OF d e p] by blast
  show ?thesis using d c e p h1 h2 h0 z cyclic_spectrum_shape [OF d c p] by blast
qed

section \<open>The score is a multiset intersection\<close>

text \<open>
  C1. For a peptide over the keys of the table, any target spectrum and both modes,
  \<open>cyclopeptide_scoring\<close> returns the cardinality of the multiset intersection of the
  peptide's theoretical spectrum (cyclic or linear, as the mode says) with the target
  spectrum, that is the sum over the mass values \<open>v\<close> of the smaller of the two numbers of
  occurrences of \<open>v\<close>; a value that is twice in both spectra contributes 2.
\<close>

theorem cyclopeptide_scoring_multiset:
  assumes "is_dict mass_table" and "covers mass_table peptide"
  shows "\<exists>theoretical.
           (if cyclic then cyclic_spectrum peptide mass_table
            else linear_spectrum peptide mass_table) = Inr theoretical \<and>
           cyclopeptide_scoring peptide spectrum cyclic mass_table =
             Inr (size (mset theoretical \<inter># mset spectrum)) \<and>
           size (mset theoretical \<inter># mset spectrum) =
             (\<Sum>v \<in> set theoretical \<union> set spectrum.
                min (count_list theoretical v) (count_list spectrum v))"
proof -
  obtain theoretical where t:
    "(if cyclic then cyclic_spectrum peptide mass_table
      else linear_spectrum peptide mass_table) = Inr theoretical"
    using cyclic_spectrum_covered [OF assms] linear_spectrum_covered [OF assms] by (cases cyclic) auto
  have "cyclopeptide_scoring peptide spectrum cyclic mass_table =
          Inr (size (mset theoretical \<inter># mset spectrum))"
    unfolding cyclopeptide_scoring_def t by (simp add: score_loop_inter)
  with t size_inter_sum [of theoretical spectrum] show ?thesis by blast
qed

text \<open>
  The peptide \<open>AA\<close> scored linearly against \<open>[71, 71, 5]\<close> satisfies the hypotheses
  of C1; the mass 71 is twice in both spectra.
\<close>

theorem cyclopeptide_scoring_multiset_witness:
  "is_dict [(CHR ''A'', 71), (CHR ''C'', 103)] \<and>
   covers [(CHR ''A'', 71), (CHR ''C'', 103)] ''AA'' \<and>
   (\<exists>theoretical.
      linear_spectrum ''AA'' [(CHR ''A'', 71), (CHR ''C'', 103)] = Inr theoretical \<and>
      cyclopeptide_scoring ''AA'' [71, 71, 5] False [(CHR ''A'', 71), (CHR ''C'', 103)] =
        Inr (size (mset theoretical \<inter># mset [71, 71, 5])))"
proof -
  have d: "is_dict [(CHR ''A'', 71), (CHR ''C'', 103)]" by (simp add: is_dict_def)
  have c: "covers [(CHR ''A'', 71), (CHR ''C'', 103)] ''AA''" by (simp add: covers_def keys_def)
  show ?thesis
    using d c cyclopeptide_scoring_multiset [OF d c, of False "[71, 71, 5]"] by auto
qed

section \<open>Trimming the leaderboard: what is kept\<close>

text \<open>
  C5 (as amended). For a leaderboard of pairwise distinct peptides whose symbols are all
  keys of the table, of size at least \<open>n \<ge> 1\<close>, every candidate has a linear score and
  \<open>trim\<close> returns exactly the candidates whose linear score is greater than or equal to
  the \<open>n\<close>-th highest linear score of the board, in their order, so that a candidate
  that ties the cutoff is kept; the result has at least \<open>n\<close> elements.
\<close>

theorem trim_keeps_ties:
  assumes "is_dict mass_table" and "covers_all mass_table board" and "distinct board"
    and "1 \<le> n" and "n \<le> int (length board)"
  shows "\<exists>kept.
           trim board spectrum n mass_table = Inr kept \<and>
           (\<forall>p \<in> set board.
              cyclopeptide_scoring p spectrum False mass_table =
                Inr (linear_score spectrum mass_table p)) \<and>
           kept = filter (\<lambda>p. nth_highest (map (linear_score spectrum mass_table) board) n
                                 \<le> linear_score spectrum mass_table p) board \<and>
           n \<le> int (length kept)"
proof -
  have "\<forall>p \<in> set board.
          cyclopeptide_scoring p spectrum False mass_table =
            Inr (linear_score spectrum mass_table p)"
    using assms(1,2) by (simp add: covers_all_def linear_score_covered)
  then show ?thesis
    using trim_scored [OF assms] kept_at_least [OF assms(4,5)] by simp
qed

text \<open>
  Four candidates against \<open>[0, 71, 103, 174]\<close> with \<open>n = 1\<close>: \<open>AC\<close> and \<open>CA\<close> tie at
  the highest score and both are kept.
\<close>

theorem trim_keeps_ties_witness:
  "is_dict [(CHR ''A'', 71), (CHR ''C'', 103)] \<and>
   covers_all [(CHR ''A'', 71), (CHR ''C'', 103)] [''AA'', ''AC'', ''CA'', ''CC''] \<and>
   distinct [''AA'', ''AC'', ''CA'', ''CC''] \<and>
   (1::int) \<le> 1 \<and> 1 \<le> int (length [''AA'', ''AC'', ''CA'', ''CC'']) \<and>
   (\<exists>kept.
      trim [''AA'', ''AC'', ''CA'', ''CC''] [0, 71, 103, 174] 1 [(CHR ''A'', 71), (CHR ''C'', 103)]
        = Inr kept \<and> 1 \<le> int (length kept)) \<and>
   trim [''AA'', ''AC'', ''CA'', ''CC''] [0, 71, 103, 174] 1 [(CHR ''A'', 71), (CHR ''C'', 103)]
     = Inr [''AC'', ''CA'']"
proof -
  let ?T = "[(CHR ''A'', 71), (CHR ''C'', 103)]"
  let ?B = "[''AA'', ''AC'', ''CA'', ''CC'']"
  have d: "is_dict ?T" by (simp add: is_dict_def)
  have c: "covers_all ?T ?B" by (simp add: covers_all_def covers_def keys_def)
  have b: "distinct ?B" by simp
  have n1: "(1::int) \<le> 1" and n2: "1 \<le> int (length ?B)" by simp_all
  have v: "trim ?B [0, 71, 103, 174] 1 ?T = Inr [''AC'', ''CA'']" by code_simp
  from trim_keeps_ties [OF d c b n1 n2, of "[0, 71, 103, 174]"]
  have "\<exists>kept. trim ?B [0, 71, 103, 174] 1 ?T = Inr kept \<and> 1 \<le> int (length kept)" by blast
  with d c b n1 n2 v show ?thesis by blast
qed

text \<open>
  Without the coverage the candidates need not have a linear score: with the table
  \<open>{A: 71, C: 103}\<close> and \<open>n = 1\<close> the board \<open>A, X\<close> is pairwise distinct and has two
  peptides, but \<open>X\<close> is not a key, its prefix masses stop at \<open>[0]\<close>, and scoring it makes
  \<open>trim\<close> raise IndexError instead of returning a leaderboard.
\<close>

theorem trim_unknown_symbol_counterexample:
  "distinct [''A'', ''X''] \<and> (1::int) \<le> 1 \<and> 1 \<le> int (length [''A'', ''X'']) \<and>
   is_dict [(CHR ''A'', 71), (CHR ''C'', 103)] \<and>
   \<not> covers [(CHR ''A'', 71), (CHR ''C'', 103)] ''X'' \<and>
   trim [''A'', ''X''] [0, 71] 1 [(CHR ''A'', 71), (CHR ''C'', 103)] = Inl IndexError"
proof -
  have "trim [''A'', ''X''] [0, 71] 1 [(CHR ''A'', 71), (CHR ''C'', 103)] = Inl IndexError"
    by code_simp
  then show ?thesis by (simp add: is_dict_def covers_def keys_def)
qed

text \<open>
  C2 (as amended). The test of \<open>trim\<close> is \<open>len(leader_board) < n\<close>: a leaderboard
  smaller than \<open>n\<close> is returned as it is, whatever it holds. A leaderboard of exactly
  \<open>n\<close> peptides goes through the scoring pass and is returned unchanged when it is not
  empty, its peptides are pairwise distinct and the table covers them. On these inputs
  \<open>trim\<close> is idempotent.
\<close>

theorem trim_small_unchanged:
  assumes "int (length board) \<le> n"
    and "int (length board) = n \<longrightarrow>
           board \<noteq> [] \<and> distinct board \<and> is_dict mass_table \<and> covers_all mass_table board"
  shows "\<exists>kept.
           trim board spectrum n mass_table = Inr kept \<and> kept = board \<and>
           trim kept spectrum n mass_table = Inr kept"
proof (cases "int (length board) < n")
  case True
  then show ?thesis by (simp add: trim_def)
next
  case False
  with assms have eq: "int (length board) = n" and ne: "board \<noteq> []" and dist: "distinct board"
    and dict: "is_dict mass_table" and cov: "covers_all mass_table board" by simp_all
  have n1: "1 \<le> n" using eq ne by (cases board) auto
  have n2: "n \<le> int (length board)" using eq by simp
  have "filter (\<lambda>p. nth_highest (map (linear_score spectrum mass_table) board) n
                       \<le> linear_score spectrum mass_table p) board = board"
    unfolding eq [symmetric] using lowest_kept [OF ne] by (simp add: filter_id_conv)
  then have "trim board spectrum n mass_table = Inr board"
    using trim_scored [OF dict cov dist n1 n2, of spectrum] by simp
  then show ?thesis by simp
qed

text \<open>
  Two peptides with \<open>n = 2\<close> take the scoring pass and come back unchanged; one peptide
  with \<open>n = 2\<close> comes back unchanged without being scored.
\<close>

theorem trim_small_unchanged_witness:
  "int (length [''A'', ''C'']) \<le> 2 \<and> int (length [''A'', ''C'']) = 2 \<and>
   [''A'', ''C''] \<noteq> [] \<and> distinct [''A'', ''C''] \<and>
   is_dict [(CHR ''A'', 71), (CHR ''C'', 103)] \<and>
   covers_all [(CHR ''A'', 71), (CHR ''C'', 103)] [''A'', ''C''] \<and>
   trim [''A'', ''C''] [0, 71] 2 [(CHR ''A'', 71), (CHR ''C'', 103)] = Inr [''A'', ''C''] \<and>
   trim [''A''] [0, 71] 2 [] = Inr [''A'']"
proof -
  let ?T = "[(CHR ''A'', 71), (CHR ''C'', 103)]"
  let ?B = "[''A'', ''C'']"
  have h1: "int (length ?B) \<le> 2" by simp
  have h2: "?B \<noteq> [] \<and> distinct ?B \<and> is_dict ?T \<and> covers_all ?T ?B"
    by (simp add: is_dict_def covers_all_def covers_def keys_def)
  then have h2': "int (length ?B) = 2 \<longrightarrow> ?B \<noteq> [] \<and> distinct ?B \<and> is_dict ?T \<and> covers_all ?T ?B"
    by blast
  have h3: "int (length [''A'']) \<le> 2" by simp
  have h4: "int (length [''A'']) = 2 \<longrightarrow>
              [''A''] \<noteq> [] \<and> distinct [''A''] \<and> is_dict [] \<and> covers_all [] [''A'']" by simp
  show ?thesis
    using h1 h2 trim_small_unchanged [OF h1 h2', of "[0, 71]"]
      trim_small_unchanged [OF h3 h4, of "[0, 71]"] by simp
qed

text \<open>
  A leaderboard of size \<open>n\<close> is not always returned: for the empty board and \<open>n = 0\<close>
  the list of scores is empty and \<open>scores[n-1]\<close> raises; for a board of two equal
  peptides and \<open>n = 2\<close> the dict holds one score and \<open>scores[1]\<close> raises.
\<close>

theorem trim_small_counterexample:
  "int (length ([] :: peptide list)) \<le> 0 \<and>
   trim [] [0, 71] 0 [(CHR ''A'', 71)] = Inl IndexError \<and>
   int (length [''A'', ''A'']) \<le> 2 \<and>
   covers_all [(CHR ''A'', 71)] [''A'', ''A''] \<and>
   trim [''A'', ''A''] [0, 71] 2 [(CHR ''A'', 71)] = Inl IndexError"
proof -
  have "trim [] [0, 71] 0 [(CHR ''A'', 71)] = Inl IndexError" by code_simp
  moreover have "trim [''A'', ''A''] [0, 71] 2 [(CHR ''A'', 71)] = Inl IndexError" by code_simp
  ultimately show ?thesis by (simp add: covers_all_def covers_def keys_def)
qed

section \<open>The leader peptide\<close>

text \<open>
  C7. In every pass through the body of the \<open>while\<close> loop the leader's score does not
  decrease, and either the leader and its score are what they were, or the new leader is a
  candidate of the expanded board whose total mass equals the maximum of the target
  spectrum and whose cyclic score is the new leader score, strictly greater than the old
  one. The new leader is the first such candidate in generation order: every candidate of
  full mass before it in the board scores strictly less, and no candidate of full mass in
  the board scores more, so that a later candidate with an equal score does not displace it.
\<close>

theorem leader_replacement:
  assumes "round_body spectrum n mass_table st = Inr (st', continue)"
  shows "leader_peptide_score st \<le> leader_peptide_score st' \<and>
         (\<forall>q \<in> set (expand (keys mass_table) (leader_board st)).
            peptide_mass q mass_table = py_max spectrum \<longrightarrow>
            (\<exists>c. cyclopeptide_scoring q spectrum True mass_table = Inr c \<and>
                 c \<le> leader_peptide_score st')) \<and>
         ((leader_peptide st', leader_peptide_score st') =
            (leader_peptide st, leader_peptide_score st) \<or>
          (\<exists>ps1 ps2.
             expand (keys mass_table) (leader_board st) = ps1 @ leader_peptide st' # ps2 \<and>
             peptide_mass (leader_peptide st') mass_table = py_max spectrum \<and>
             cyclopeptide_scoring (leader_peptide st') spectrum True mass_table =
               Inr (leader_peptide_score st') \<and>
             leader_peptide_score st < leader_peptide_score st' \<and>
             (\<forall>q \<in> set ps1.
                peptide_mass q mass_table = py_max spectrum \<longrightarrow>
                (\<exists>c. cyclopeptide_scoring q spectrum True mass_table = Inr c \<and>
                     c < leader_peptide_score st'))))"
proof -
  from round_body_leader [OF assms] obtain st1 where
    mf: "mass_filter spectrum mass_table st = Inr st1" and
    eq: "leader_peptide st' = leader_peptide st1"
        "leader_peptide_score st' = leader_peptide_score st1"
    by blast
  from mass_filter_scan [OF mf] obtain rem where
    "for_each (expand (keys mass_table) (leader_board st)) (examine spectrum mass_table)
       (leader_peptide st, leader_peptide_score st, [])
     = Inr (leader_peptide st1, leader_peptide_score st1, rem)"
    by blast
  from scan_leader [OF this] show ?thesis unfolding eq .
qed

text \<open>
  The second round of the run on \<open>[1, 1, 2, 4]\<close> with \<open>{A: 1, C: 3}\<close> and \<open>n = 1\<close>:
  the candidate \<open>AC\<close> of mass 4 becomes the leader with score 2.
\<close>

theorem leader_replacement_witness:
  "round_body [1, 1, 2, 4] 1 [(CHR ''A'', 1), (CHR ''C'', 3)]
     \<lparr>leader_board = [''A''], leader_peptide = '''', leader_peptide_score = 0\<rparr>
   = Inr (\<lparr>leader_board = [''AA''], leader_peptide = ''AC'', leader_peptide_score = 2\<rparr>, True) \<and>
   peptide_mass ''AC'' [(CHR ''A'', 1), (CHR ''C'', 3)] = py_max [1, 1, 2, 4] \<and>
   cyclopeptide_scoring ''AC'' [1, 1, 2, 4] True [(CHR ''A'', 1), (CHR ''C'', 3)] = Inr 2 \<and>
   (0::nat) < 2"
proof -
  let ?T = "[(CHR ''A'', 1), (CHR ''C'', 3)]"
  have r: "round_body [1, 1, 2, 4] 1 ?T
     \<lparr>leader_board = [''A''], leader_peptide = '''', leader_peptide_score = 0\<rparr>
   = Inr (\<lparr>leader_board = [''AA''], leader_peptide = ''AC'', leader_peptide_score = 2\<rparr>, True)"
    by code_simp
  from leader_replacement [OF r]
  have "peptide_mass ''AC'' ?T = py_max [1, 1, 2, 4] \<and>
        cyclopeptide_scoring ''AC'' [1, 1, 2, 4] True ?T = Inr 2 \<and> (0::nat) < 2"
    by auto
  with r show ?thesis by simp
qed

section \<open>The empty spectrum\<close>

text \<open>
  C8. On the empty target spectrum, with a table that is not empty, the sequencer does not
  return a peptide: the first candidate examined in the first round makes \<open>max(spectrum)\<close>
  raise ValueError (no maximum mass exists), and the error is the result of the run.
\<close>

theorem empty_spectrum_fails:
  assumes "mass_table \<noteq> []"
  shows "leaderboard_peptide_sequencing [] n mass_table = Some (Inl ValueError)"
proof -
  from assms obtain a m rest where t: "mass_table = (a, m) # rest" by (cases mass_table) auto
  have ex: "expand (keys mass_table) [''''] = [a] # map (\<lambda>aa. [aa]) (map fst rest)"
    by (simp add: expand_def keys_def t comp_def)
  have pm: "peptide_mass [a] mass_table = Inr m"
    by (simp add: peptide_mass_def getitem_def t)
  have "examine [] mass_table [a] ('''', 0, []) = Inl ValueError"
    by (simp add: examine_def pm py_max_def)
  then have "mass_filter [] mass_table initial_state = Inl ValueError"
    by (simp add: mass_filter_def initial_state_def ex)
  then have "round_body [] n mass_table initial_state = Inl ValueError"
    by (simp add: round_body_def)
  then have "sequencing_loop [] n mass_table initial_state = Some (Inl ValueError)"
    by (subst sequencing_loop.simps) (simp add: initial_state_def)
  then show ?thesis by (simp add: leaderboard_peptide_sequencing_def)
qed

text \<open>The table \<open>{A: 71, C: 103}\<close> is not empty.\<close>

theorem empty_spectrum_fails_witness:
  "[(CHR ''A'', 71), (CHR ''C'', 103)] \<noteq> [] \<and>
   leaderboard_peptide_sequencing [] 10 [(CHR ''A'', 71), (CHR ''C'', 103)] = Some (Inl ValueError)"
proof -
  have h: "[(CHR ''A'', 71::int), (CHR ''C'', 103)] \<noteq> []" by simp
  show ?thesis using h empty_spectrum_fails [OF h, of 10] by simp
qed

section \<open>Candidates of full mass stay on the board\<close>

text \<open>
  C10 (as amended). In a round on a non-empty spectrum, with a leaderboard over the keys of
  the table, the mass filter removes exactly the candidates whose mass is strictly greater
  than the maximum of the spectrum. A candidate whose mass equals the maximum stays in
  the leaderboard, which is then not empty and is handed to \<open>trim\<close>; when \<open>trim\<close>
  retains the candidate, the following round expands it by every symbol of the table.
\<close>

theorem full_mass_candidate_kept:
  assumes "is_dict mass_table" and "spectrum \<noteq> []"
    and "covers_all mass_table (leader_board st)"
    and "p \<in> set (expand (keys mass_table) (leader_board st))"
    and "peptide_mass p mass_table = py_max spectrum"
  shows "\<exists>st1.
           mass_filter spectrum mass_table st = Inr st1 \<and>
           py_max spectrum = Inr (spectrum_max spectrum) \<and>
           (\<forall>q \<in> set (expand (keys mass_table) (leader_board st)).
              peptide_mass q mass_table = Inr (mass_sum mass_table q)) \<and>
           leader_board st1 = filter (\<lambda>q. \<not> over_bound spectrum mass_table q)
                                (expand (keys mass_table) (leader_board st)) \<and>
           p \<in> set (leader_board st1) \<and>
           round_body spectrum n mass_table st =
             (case trim (leader_board st1) spectrum n mass_table of
                Inl e \<Rightarrow> Inl e
              | Inr board \<Rightarrow> Inr (st1\<lparr>leader_board := board\<rparr>, True)) \<and>
           (\<forall>st2. round_body spectrum n mass_table st = Inr (st2, True) \<and>
                  p \<in> set (leader_board st2) \<longrightarrow>
                  (\<forall>aa \<in> set (keys mass_table).
                     p @ [aa] \<in> set (expand (keys mass_table) (leader_board st2))))"
proof -
  let ?board = "expand (keys mass_table) (leader_board st)"
  let ?kept = "filter (\<lambda>q. \<not> over_bound spectrum mass_table q) ?board"
  from mass_filter_covered [OF assms(1,2,3)] obtain L' s' where
    mf: "mass_filter spectrum mass_table st =
           Inr \<lparr>leader_board = ?kept, leader_peptide = L', leader_peptide_score = s'\<rparr>"
    by blast
  have "covers mass_table p"
    using expand_covers [OF assms(3)] assms(4) by (simp add: covers_all_def)
  then have "peptide_mass p mass_table = Inr (mass_sum mass_table p)"
    by (rule peptide_mass_covered)
  with assms(5) py_max_nonempty [OF assms(2)]
  have "mass_sum mass_table p = spectrum_max spectrum" by simp
  then have "\<not> over_bound spectrum mass_table p" by (simp add: over_bound_def)
  with assms(4) have kept: "p \<in> set ?kept" by simp
  then have ne: "0 < length ?kept" by (cases ?kept) auto
  have rb: "round_body spectrum n mass_table st =
             (case trim ?kept spectrum n mass_table of
                Inl e \<Rightarrow> Inl e
              | Inr board \<Rightarrow>
                  Inr (\<lparr>leader_board = ?kept, leader_peptide = L',
                        leader_peptide_score = s'\<rparr>\<lparr>leader_board := board\<rparr>, True))"
    unfolding round_body_def mf using ne by simp
  have again: "\<forall>st2. round_body spectrum n mass_table st = Inr (st2, True) \<and>
                  p \<in> set (leader_board st2) \<longrightarrow>
                  (\<forall>aa \<in> set (keys mass_table).
                     p @ [aa] \<in> set (expand (keys mass_table) (leader_board st2)))"
    by (auto simp: expand_member)
  have masses: "\<forall>q \<in> set ?board. peptide_mass q mass_table = Inr (mass_sum mass_table q)"
    using expand_covers [OF assms(3)] by (simp add: covers_all_def peptide_mass_covered)
  show ?thesis
    by (intro exI [of _ "\<lparr>leader_board = ?kept, leader_peptide = L', leader_peptide_score = s'\<rparr>"]
        conjI mf again masses py_max_nonempty [OF assms(2)]) (use kept rb in simp_all)
qed

text \<open>
  In the second round of the run on \<open>[1, 1, 2, 4]\<close> the candidate \<open>AC\<close> has the mass 4
  and stays on the board after the mass filter; with \<open>n = 10\<close> the trim keeps it, and the
  third round expands it.
\<close>

theorem full_mass_candidate_kept_witness:
  "is_dict [(CHR ''A'', 1), (CHR ''C'', 3)] \<and> [1, 1, 2, 4] \<noteq> ([] :: int list) \<and>
   covers_all [(CHR ''A'', 1), (CHR ''C'', 3)]
     (leader_board \<lparr>leader_board = [''A''], leader_peptide = [], leader_peptide_score = 0\<rparr>) \<and>
   ''AC'' \<in> set (expand (keys [(CHR ''A'', 1), (CHR ''C'', 3)])
     (leader_board \<lparr>leader_board = [''A''], leader_peptide = [], leader_peptide_score = 0\<rparr>)) \<and>
   peptide_mass ''AC'' [(CHR ''A'', 1), (CHR ''C'', 3)] = py_max [1, 1, 2, 4] \<and>
   (\<exists>st1. mass_filter [1, 1, 2, 4] [(CHR ''A'', 1), (CHR ''C'', 3)]
            \<lparr>leader_board = [''A''], leader_peptide = [], leader_peptide_score = 0\<rparr> = Inr st1 \<and>
          ''AC'' \<in> set (leader_board st1)) \<and>
   round_body [1, 1, 2, 4] 10 [(CHR ''A'', 1), (CHR ''C'', 3)]
     \<lparr>leader_board = [''A''], leader_peptide = [], leader_peptide_score = 0\<rparr>
     = Inr (\<lparr>leader_board = [''AA'', ''AC''], leader_peptide = ''AC'',
             leader_peptide_score = 2\<rparr>, True) \<and>
   ''AC'' \<in> set (leader_board \<lparr>leader_board = [''AA'', ''AC''], leader_peptide = ''AC'',
                                 leader_peptide_score = 2\<rparr>) \<and>
   CHR ''A'' \<in> set (keys [(CHR ''A'', 1), (CHR ''C'', 3)]) \<and>
   ''AC'' @ [CHR ''A''] \<in> set (expand (keys [(CHR ''A'', 1), (CHR ''C'', 3)])
     (leader_board \<lparr>leader_board = [''AA'', ''AC''], leader_peptide = ''AC'',
                    leader_peptide_score = 2\<rparr>))"
proof -
  let ?T = "[(CHR ''A'', 1), (CHR ''C'', 3)]"
  let ?st = "\<lparr>leader_board = [''A''], leader_peptide = [], leader_peptide_score = 0\<rparr>"
  let ?st2 = "\<lparr>leader_board = [''AA'', ''AC''], leader_peptide = ''AC'', leader_peptide_score = 2\<rparr>"
  have h1: "is_dict ?T" by (simp add: is_dict_def)
  have h2: "[1, 1, 2, 4] \<noteq> ([] :: int list)" by simp
  have h3: "covers_all ?T (leader_board ?st)" by (simp add: covers_all_def covers_def keys_def)
  have h4: "''AC'' \<in> set (expand (keys ?T) (leader_board ?st))" by (simp add: expand_def keys_def)
  have h5: "peptide_mass ''AC'' ?T = py_max [1, 1, 2, 4]" by code_simp
  have r: "round_body [1, 1, 2, 4] 10 ?T ?st = Inr (?st2, True)" by code_simp
  have m: "''AC'' \<in> set (leader_board ?st2)" by simp
  have k: "CHR ''A'' \<in> set (keys ?T)" by (simp add: keys_def)
  note inst = full_mass_candidate_kept [OF h1 h2 h3 h4 h5, of 10]
  from inst have a: "\<exists>st1. mass_filter [1, 1, 2, 4] ?T ?st = Inr st1 \<and> ''AC'' \<in> set (leader_board st1)"
    by blast
  from inst r m k have b: "''AC'' @ [CHR ''A''] \<in> set (expand (keys ?T) (leader_board ?st2))"
    by blast
  from h1 h2 h3 h4 h5 a r m k b show ?thesis by blast
qed

text \<open>
  A candidate of full mass is not always expanded again. In that same round, with
  \<open>n = 1\<close>, the board handed to \<open>trim\<close> is \<open>AA, AC\<close>; \<open>AA\<close> has the linear score 3
  and \<open>AC\<close> the linear score 2, so \<open>trim\<close> keeps \<open>AA\<close> only, and the third round expands
  \<open>AA\<close> and nothing that starts with \<open>AC\<close>.
\<close>

theorem full_mass_candidate_trimmed_counterexample:
  "round_body [1, 1, 2, 4] 1 [(CHR ''A'', 1), (CHR ''C'', 3)] initial_state
     = Inr (\<lparr>leader_board = [''A''], leader_peptide = '''', leader_peptide_score = 0\<rparr>, True) \<and>
   ''AC'' \<in> set (expand (keys [(CHR ''A'', 1), (CHR ''C'', 3)]) [''A'']) \<and>
   peptide_mass ''AC'' [(CHR ''A'', 1), (CHR ''C'', 3)] = py_max [1, 1, 2, 4] \<and>
   mass_filter [1, 1, 2, 4] [(CHR ''A'', 1), (CHR ''C'', 3)]
     \<lparr>leader_board = [''A''], leader_peptide = '''', leader_peptide_score = 0\<rparr>
     = Inr \<lparr>leader_board = [''AA'', ''AC''], leader_peptide = ''AC'', leader_peptide_score = 2\<rparr> \<and>
   round_body [1, 1, 2, 4] 1 [(CHR ''A'', 1), (CHR ''C'', 3)]
     \<lparr>leader_board = [''A''], leader_peptide = '''', leader_peptide_score = 0\<rparr>
     = Inr (\<lparr>leader_board = [''AA''], leader_peptide = ''AC'', leader_peptide_score = 2\<rparr>, True) \<and>
   expand (keys [(CHR ''A'', 1), (CHR ''C'', 3)]) [''AA''] = [''AAA'', ''AAC''] \<and>
   ''ACA'' \<notin> set (expand (keys [(CHR ''A'', 1), (CHR ''C'', 3)]) [''AA'']) \<and>
   ''ACC'' \<notin> set (expand (keys [(CHR ''A'', 1), (CHR ''C'', 3)]) [''AA''])"
proof -
  let ?T = "[(CHR ''A'', 1), (CHR ''C'', 3)]"
  let ?st = "\<lparr>leader_board = [''A''], leader_peptide = '''', leader_peptide_score = 0\<rparr>"
  have a: "round_body [1, 1, 2, 4] 1 ?T initial_state = Inr (?st, True)" by code_simp
  have b: "''AC'' \<in> set (expand (keys ?T) [''A''])" by (simp add: expand_def keys_def)
  have c: "peptide_mass ''AC'' ?T = py_max [1, 1, 2, 4]" by code_simp
  have d: "mass_filter [1, 1, 2, 4] ?T ?st
     = Inr \<lparr>leader_board = [''AA'', ''AC''], leader_peptide = ''AC'', leader_peptide_score = 2\<rparr>"
    by code_simp
  have e: "round_body [1, 1, 2, 4] 1 ?T ?st
     = Inr (\<lparr>leader_board = [''AA''], leader_peptide = ''AC'', leader_peptide_score = 2\<rparr>, True)"
    by code_simp
  have f: "expand (keys ?T) [''AA''] = [''AAA'', ''AAC'']" by (simp add: expand_def keys_def)
  from a b c d e f show ?thesis by simp
qed

section \<open>Termination\<close>

text \<open>
  C9 (as amended). For a target spectrum that is not empty, a table that is not empty
  with positive masses, and a retention count \<open>n \<ge> 0\<close>, the \<open>while\<close> loop returns: no round raises,
  after finitely many rounds the leaderboard is empty, and the function returns the leader
  peptide of the final state. In round \<open>k\<close> every candidate has \<open>k\<close> residues and so a
  mass of at least \<open>k\<close>; once \<open>k\<close> is greater than the maximum of the spectrum the mass
  filter removes them all.
\<close>

theorem sequencing_terminates:
  assumes "spectrum \<noteq> []" and "mass_table \<noteq> []" and "is_dict mass_table"
    and "positive_masses mass_table" and "0 \<le> n"
  shows "\<exists>st'. sequencing_loop spectrum n mass_table initial_state = Some (Inr st') \<and>
               leader_board st' = [] \<and>
               leaderboard_peptide_sequencing spectrum n mass_table = Some (Inr (leader_peptide st'))"
proof -
  have "round_inv mass_table 0 initial_state"
    by (simp add: round_inv_def initial_state_def covers_all_def covers_def)
  from loop_terminates [OF assms(3,4,1,5) this] obtain st' where
    "sequencing_loop spectrum n mass_table initial_state = Some (Inr st')" "leader_board st' = []"
    by blast
  then show ?thesis by (simp add: leaderboard_peptide_sequencing_def)
qed

text \<open>The run on \<open>[0, 71, 103, 174]\<close> with \<open>{A: 71, C: 103}\<close> and \<open>n = 10\<close> returns \<open>CA\<close>.\<close>

theorem sequencing_terminates_witness:
  "[0, 71, 103, 174] \<noteq> ([] :: int list) \<and>
   [(CHR ''A'', 71), (CHR ''C'', 103)] \<noteq> ([] :: mass_table) \<and>
   is_dict [(CHR ''A'', 71), (CHR ''C'', 103)] \<and>
   positive_masses [(CHR ''A'', 71), (CHR ''C'', 103)] \<and> (0::int) \<le> 10 \<and>
   (\<exists>st'. sequencing_loop [0, 71, 103, 174] 10 [(CHR ''A'', 71), (CHR ''C'', 103)] initial_state
            = Some (Inr st') \<and>
          leader_board st' = [] \<and>
          leaderboard_peptide_sequencing [0, 71, 103, 174] 10 [(CHR ''A'', 71), (CHR ''C'', 103)]
            = Some (Inr (leader_peptide st'))) \<and>
   leaderboard_peptide_sequencing [0, 71, 103, 174] 10 [(CHR ''A'', 71), (CHR ''C'', 103)]
     = Some (Inr ''CA'')"
proof -
  let ?T = "[(CHR ''A'', 71), (CHR ''C'', 103)]"
  have h1: "[0, 71, 103, 174] \<noteq> ([] :: int list)" by simp
  have h2: "?T \<noteq> []" by simp
  have h3: "is_dict ?T" by (simp add: is_dict_def)
  have h4: "positive_masses ?T" by (simp add: positive_masses_def)
  have h5: "(0::int) \<le> 10" by simp
  have v: "leaderboard_peptide_sequencing [0, 71, 103, 174] 10 ?T = Some (Inr ''CA'')"
    by code_simp
  show ?thesis using h1 h2 h3 h4 h5 v sequencing_terminates [OF h1 h2 h3 h4 h5] by blast
qed

text \<open>
  For a negative \<open>n\<close> the run can end in an error. With the spectrum \<open>[0, 71]\<close>, the
  table \<open>{A: 71}\<close> and \<open>n = -1\<close>, the first round keeps the candidate \<open>A\<close>, whose mass
  is the maximum, and \<open>trim\<close> reads \<open>scores[-2]\<close> in a list of one score: the body
  raises IndexError and no peptide is returned.
\<close>

theorem sequencing_negative_count_counterexample:
  "[0, 71] \<noteq> ([] :: int list) \<and> [(CHR ''A'', 71)] \<noteq> ([] :: mass_table) \<and>
   is_dict [(CHR ''A'', 71)] \<and> positive_masses [(CHR ''A'', 71)] \<and>
   round_body [0, 71] (- 1) [(CHR ''A'', 71)] initial_state = Inl IndexError \<and>
   leaderboard_peptide_sequencing [0, 71] (- 1) [(CHR ''A'', 71)] = Some (Inl IndexError)"
proof -
  have a: "round_body [0, 71] (- 1) [(CHR ''A'', 71)] initial_state = Inl IndexError"
    by code_simp
  have b: "leaderboard_peptide_sequencing [0, 71] (- 1) [(CHR ''A'', 71)] = Some (Inl IndexError)"
    by code_simp
  from a b show ?thesis by (simp add: is_dict_def positive_masses_def)
qed

end
